theory Spec2Isabelle
  imports Main "HOL-Library.Word" "HOL-Library.Tree" "HOL-Library.Monad_Syntax"
begin

section \<open>The file format of avl\_file.c\<close>

text \<open>
  The C code keeps a header at offset 0 and fixed-length records behind it.
  All records (tree records, current-pointer records, empty records) share
  \<^verbatim>\<open>struct avl_struct\<close>: an array of \<^verbatim>\<open>n_keys\<close> nodes, the two
  pointers of the sequential list and the data bytes. File offsets
  (\<^verbatim>\<open>off_t\<close>) and the balance byte are modelled by \<^typ>\<open>int\<close>: no
  arithmetic on them can leave the machine range in the code paths below.
  The two 64-bit counters of the header are machine words, since
  \<^verbatim>\<open>avl_file_insert\<close> tests \<^verbatim>\<open>n_avl + 1 < 0\<close> and
  \<^verbatim>\<open>avl_file_getnum\<close> increments \<^verbatim>\<open>nextnum\<close> without a test.
\<close>

type_synonym payload = "8 word list"

record avl_node_struct =
  node_b :: int
  node_l :: int
  node_r :: int

record avl_struct =
  rec_n :: "avl_node_struct list"
  rec_prev :: int
  rec_next :: int
  rec_b :: payload

record hdr_struct =
  h_n_keys :: nat
  h_len :: nat
  h_reclen :: int
  n_avl :: "64 word"
  nextnum :: "64 word"
  root :: "int list"
  head_seq :: int
  head_empty :: int
  head_cpr :: int

text \<open>
  The file: the header, the records by offset, and the file length. The local
  variable \<^verbatim>\<open>lim\<close> of the C functions is initialised with the file
  length and follows every extension, so the model keeps one field for both.
\<close>

record afile =
  hdr :: hdr_struct
  recs :: "int \<rightharpoonup> avl_struct"
  lim :: int

text \<open>
  \<^verbatim>\<open>struct avl_file_struct\<close>. \<open>af_hdrlen\<close> stands for
  \<^verbatim>\<open>sizeof (hdr)\<close>, which the C compiler derives from \<^verbatim>\<open>n_keys\<close>.
\<close>

record avl_file_struct =
  af_n_keys :: nat
  af_len :: nat
  af_reclen :: int
  af_hdrlen :: int
  af_cmp :: "nat \<Rightarrow> payload \<Rightarrow> payload \<Rightarrow> int"
  af_cpr :: int

text \<open>
  \<^verbatim>\<open>avl_file_lread\<close> and \<^verbatim>\<open>avl_file_lwrite\<close>. \<open>None\<close> is
  \<^verbatim>\<open>avl_file_fatal\<close>, the abort of the process: a position beyond
  \<^verbatim>\<open>lim\<close>, a failed seek or a short read. A position that holds no
  record is such a failed read.
\<close>

definition lread :: "afile \<Rightarrow> int \<Rightarrow> avl_struct option" where
  "lread f pos = (if pos > lim f then None else if pos < 0 then None else recs f pos)"

definition lwrite :: "avl_file_struct \<Rightarrow> afile \<Rightarrow> int \<Rightarrow> avl_struct \<Rightarrow> afile option" where
  "lwrite ap f pos pr =
     (if pos > lim f then None
      else if pos < 0 then None
      else Some (f\<lparr>recs := (recs f)(pos \<mapsto> pr),
                   lim := (if pos + af_reclen ap > lim f then pos + af_reclen ap else lim f)\<rparr>))"

definition lread_hdr :: "avl_file_struct \<Rightarrow> afile \<Rightarrow> hdr_struct option" where
  "lread_hdr ap f = (if lim f < af_hdrlen ap then None else Some (hdr f))"

definition lwrite_hdr :: "avl_file_struct \<Rightarrow> afile \<Rightarrow> hdr_struct \<Rightarrow> afile option" where
  "lwrite_hdr ap f h =
     Some (f\<lparr>hdr := h, lim := (if af_hdrlen ap > lim f then af_hdrlen ap else lim f)\<rparr>)"

section \<open>avl\_file\_getnum\<close>

text \<open>
  The header is read and written with plain \<^verbatim>\<open>read\<close> and
  \<^verbatim>\<open>write\<close>, whose results the code ignores. The result is the
  incremented counter, a signed 64-bit value.
\<close>

definition avl_file_getnum :: "avl_file_struct \<Rightarrow> afile \<Rightarrow> 64 word \<times> afile" where
  "avl_file_getnum ap f =
     (let h = hdr f;
          h = h\<lparr>nextnum := nextnum h + 1\<rparr>
      in (nextnum h, f\<lparr>hdr := h\<rparr>))"

section \<open>avl\_file\_open and avl\_file\_close\<close>

text \<open>
  What \<^verbatim>\<open>avl_file_open\<close> takes from its environment: whether
  \<^verbatim>\<open>open\<close> and \<^verbatim>\<open>malloc\<close> succeed, the bytes of the process ID,
  and the result of the lock test \<^verbatim>\<open>lockf (fd, F_TEST, reclen) == 0\<close> at
  a position.
\<close>

record env =
  env_open_ok :: bool
  env_malloc_ok :: bool
  env_pid :: "8 word list"
  env_ftest :: "int \<Rightarrow> bool"

definition cpr_node :: avl_node_struct where
  "cpr_node = \<lparr>node_b = 0x20, node_l = 0, node_r = 0\<rparr>"

definition empty_node :: avl_node_struct where
  "empty_node = \<lparr>node_b = 0x40, node_l = 0, node_r = 0\<rparr>"

text \<open>
  The search for an unused current-pointer record: the loop leaves with the
  position found, or with the value that ended the list.
\<close>

partial_function (option) open_loop ::
  "avl_file_struct \<Rightarrow> env \<Rightarrow> afile \<Rightarrow> int \<Rightarrow> avl_struct \<Rightarrow> (int \<times> avl_struct) option" where
  "open_loop ap e f cp cpr =
     (if cp > 0 then
        do {
          cpr \<leftarrow> lread f cp;
          if af_len ap \<ge> length (env_pid e)
             \<and> take (length (env_pid e)) (rec_b cpr) \<noteq> env_pid e
             \<and> env_ftest e cp
          then Some (cp, cpr)
          else open_loop ap e f (rec_next cpr) cpr
        }
      else Some (cp, cpr))"

text \<open>
  The result of \<open>avl_file_open\<close> is \<open>None\<close> when the process aborts,
  \<open>Some (None, f)\<close> when the function returns \<^verbatim>\<open>NULL\<close>, and the
  handle otherwise. \<open>cpr0\<close> is the content of the local record
  \<^verbatim>\<open>cpr\<close> before anything is read into it.
\<close>

definition avl_file_open ::
  "env \<Rightarrow> afile \<Rightarrow> nat \<Rightarrow> nat \<Rightarrow> (nat \<Rightarrow> payload \<Rightarrow> payload \<Rightarrow> int) \<Rightarrow> int \<Rightarrow> int \<Rightarrow> avl_struct
     \<Rightarrow> (avl_file_struct option \<times> afile) option" where
  "avl_file_open e f len n_keys cmp reclen hdrlen cpr0 =
     (let ap = \<lparr>af_n_keys = n_keys, af_len = len, af_reclen = reclen, af_hdrlen = hdrlen,
                 af_cmp = cmp, af_cpr = 0\<rparr>
      in
      if \<not> env_open_ok e then Some (None, f)
      else if lim f \<noteq> 0 \<and> lim f < hdrlen then Some (None, f)
      else do {
        f \<leftarrow> (if lim f = 0
               then lwrite_hdr ap f
                      \<lparr>h_n_keys = n_keys, h_len = len, h_reclen = reclen, n_avl = 0, nextnum = 0,
                        root = replicate n_keys 0, head_seq = 0, head_empty = 0, head_cpr = 0\<rparr>
               else Some f);
        let h = hdr f;
        if h_reclen h \<noteq> reclen then Some (None, f)
        else if h_n_keys h \<noteq> n_keys then Some (None, f)
        else if \<not> env_malloc_ok e then Some (None, f)
        else do {
          (cp, cpr) \<leftarrow> open_loop ap e f (head_cpr h) cpr0;
          (cp, cpr, h) \<leftarrow>
            (if cp = 0 then
               do {
                 (cp, cpr, h) \<leftarrow>
                   (if head_empty h = 0 then Some (lim f, cpr, h)
                    else do {
                      cpr \<leftarrow> lread f (head_empty h);
                      Some (head_empty h, cpr, h\<lparr>head_empty := rec_next cpr\<rparr>)
                    });
                 Some (cp, cpr\<lparr>rec_next := head_cpr h\<rparr>, h\<lparr>head_cpr := cp\<rparr>)
               }
             else Some (cp, cpr, h));
          let ap = ap\<lparr>af_cpr := cp\<rparr>;
          let cpr = cpr\<lparr>rec_n := replicate n_keys cpr_node\<rparr>;
          let cpr = (if len \<ge> length (env_pid e)
                     then cpr\<lparr>rec_b := env_pid e @ drop (length (env_pid e)) (rec_b cpr)\<rparr>
                     else cpr);
          let cpr = cpr\<lparr>rec_prev := 0\<rparr>;
          f \<leftarrow> lwrite ap f cp cpr;
          f \<leftarrow> lwrite_hdr ap f h;
          Some (Some ap, f)
        }
      })"

partial_function (option) close_loop ::
  "avl_file_struct \<Rightarrow> afile \<Rightarrow> int \<Rightarrow> avl_struct \<Rightarrow> int \<Rightarrow> afile option" where
  "close_loop ap f cp cpr sp =
     (if sp > 0 then
        do {
          spr \<leftarrow> lread f sp;
          if rec_next spr = cp
          then lwrite ap f sp (spr\<lparr>rec_next := rec_next cpr\<rparr>)
          else close_loop ap f cp cpr (rec_next spr)
        }
      else Some f)"

definition avl_file_close :: "avl_file_struct \<Rightarrow> afile \<Rightarrow> afile option" where
  "avl_file_close ap f =
     do {
       h \<leftarrow> lread_hdr ap f;
       let cp = af_cpr ap;
       cpr \<leftarrow> lread f cp;
       (h, f) \<leftarrow> (if head_cpr h = cp then Some (h\<lparr>head_cpr := rec_next cpr\<rparr>, f)
                  else do { f \<leftarrow> close_loop ap f cp cpr (head_cpr h); Some (h, f) });
       let cpr = cpr\<lparr>rec_n := replicate (af_n_keys ap) empty_node\<rparr>;
       let cpr = cpr\<lparr>rec_next := head_empty h\<rparr>;
       let h = h\<lparr>head_empty := cp\<rparr>;
       f \<leftarrow> lwrite ap f cp cpr;
       lwrite_hdr ap f h
     }"

section \<open>avl\_file\_startseq and avl\_file\_readseq\<close>

definition avl_file_startseq :: "avl_file_struct \<Rightarrow> afile \<Rightarrow> afile option" where
  "avl_file_startseq ap f =
     do {
       let h = hdr f;
       cpr \<leftarrow> lread f (af_cpr ap);
       lwrite ap f (af_cpr ap) (cpr\<lparr>rec_prev := head_seq h\<rparr>)
     }"

text \<open>
  \<open>avl_file_readseq\<close> returns the return value, the data buffer and the file.
\<close>

definition avl_file_readseq ::
  "avl_file_struct \<Rightarrow> afile \<Rightarrow> payload \<Rightarrow> (int \<times> payload \<times> afile) option" where
  "avl_file_readseq ap f data =
     do {
       cpr \<leftarrow> lread f (af_cpr ap);
       if rec_prev cpr = 0 then Some (- 1, data, f)
       else do {
         ar \<leftarrow> lread f (rec_prev cpr);
         f \<leftarrow> lwrite ap f (af_cpr ap) (cpr\<lparr>rec_prev := rec_next ar\<rparr>);
         Some (0, rec_b ar, f)
       }
     }"

section \<open>Ordered retrieval: startlt, startge, next, prev, find\<close>

text \<open>
  The code walks to the in-order neighbour of a record in five places with
  the same two loops; they are \<open>rightmost\<close> and \<open>leftmost\<close> here.
  \<open>tree_prev f k ar\<close> is the fragment
  \<^verbatim>\<open>sp = ar.n[k].l; if (sp > 0) { ... while (sr.n[k].r > 0) ... } else sp = -ar.n[k].l;\<close>
  and \<open>tree_next\<close> is its mirror image. Both return the position and the
  record read last (the record is \<open>sr0\<close>, the content of the local variable,
  when nothing was read).
\<close>

partial_function (option) rightmost ::
  "afile \<Rightarrow> nat \<Rightarrow> int \<Rightarrow> avl_struct \<Rightarrow> (int \<times> avl_struct) option" where
  "rightmost f k sp sr =
     (if node_r (rec_n sr ! k) > 0
      then do { sr' \<leftarrow> lread f (node_r (rec_n sr ! k)); rightmost f k (node_r (rec_n sr ! k)) sr' }
      else Some (sp, sr))"

partial_function (option) leftmost ::
  "afile \<Rightarrow> nat \<Rightarrow> int \<Rightarrow> avl_struct \<Rightarrow> (int \<times> avl_struct) option" where
  "leftmost f k sp sr =
     (if node_l (rec_n sr ! k) > 0
      then do { sr' \<leftarrow> lread f (node_l (rec_n sr ! k)); leftmost f k (node_l (rec_n sr ! k)) sr' }
      else Some (sp, sr))"

definition tree_prev :: "afile \<Rightarrow> nat \<Rightarrow> avl_struct \<Rightarrow> avl_struct \<Rightarrow> (int \<times> avl_struct) option" where
  "tree_prev f k ar sr0 =
     (if node_l (rec_n ar ! k) > 0
      then do { sr \<leftarrow> lread f (node_l (rec_n ar ! k)); rightmost f k (node_l (rec_n ar ! k)) sr }
      else Some (- node_l (rec_n ar ! k), sr0))"

definition tree_next :: "afile \<Rightarrow> nat \<Rightarrow> avl_struct \<Rightarrow> avl_struct \<Rightarrow> (int \<times> avl_struct) option" where
  "tree_next f k ar sr0 =
     (if node_r (rec_n ar ! k) > 0
      then do { sr \<leftarrow> lread f (node_r (rec_n ar ! k)); leftmost f k (node_r (rec_n ar ! k)) sr }
      else Some (- node_r (rec_n ar ! k), sr0))"

text \<open>Assignments to \<^verbatim>\<open>r.n[k].l\<close>, \<^verbatim>\<open>r.n[k].r\<close> and \<^verbatim>\<open>r.n[k].b\<close>.\<close>

definition set_l :: "nat \<Rightarrow> int \<Rightarrow> avl_struct \<Rightarrow> avl_struct" where
  "set_l k v r = r\<lparr>rec_n := (rec_n r)[k := (rec_n r ! k)\<lparr>node_l := v\<rparr>]\<rparr>"

definition set_r :: "nat \<Rightarrow> int \<Rightarrow> avl_struct \<Rightarrow> avl_struct" where
  "set_r k v r = r\<lparr>rec_n := (rec_n r)[k := (rec_n r ! k)\<lparr>node_r := v\<rparr>]\<rparr>"

definition set_b :: "nat \<Rightarrow> int \<Rightarrow> avl_struct \<Rightarrow> avl_struct" where
  "set_b k v r = r\<lparr>rec_n := (rec_n r)[k := (rec_n r ! k)\<lparr>node_b := v\<rparr>]\<rparr>"

abbreviation get_l :: "nat \<Rightarrow> avl_struct \<Rightarrow> int" where
  "get_l k r \<equiv> node_l (rec_n r ! k)"

abbreviation get_r :: "nat \<Rightarrow> avl_struct \<Rightarrow> int" where
  "get_r k r \<equiv> node_r (rec_n r ! k)"

abbreviation get_b :: "nat \<Rightarrow> avl_struct \<Rightarrow> int" where
  "get_b k r \<equiv> node_b (rec_n r ! k)"

text \<open>The descent of \<open>avl_file_startlt\<close> and of \<open>avl_file_startge\<close>;
  \<open>b\<close> is the data of the caller.\<close>

partial_function (option) startlt_loop ::
  "avl_file_struct \<Rightarrow> afile \<Rightarrow> nat \<Rightarrow> payload \<Rightarrow> int \<Rightarrow> int option" where
  "startlt_loop ap f k b a =
     (if a > 0 then
        do {
          ar \<leftarrow> lread f a;
          if af_cmp ap k b (rec_b ar) \<le> 0
          then (if get_l k ar > 0 then startlt_loop ap f k b (get_l k ar)
                else Some (- get_l k ar))
          else (if get_r k ar > 0 then startlt_loop ap f k b (get_r k ar)
                else Some a)
        }
      else Some a)"

partial_function (option) startge_loop ::
  "avl_file_struct \<Rightarrow> afile \<Rightarrow> nat \<Rightarrow> payload \<Rightarrow> int \<Rightarrow> int option" where
  "startge_loop ap f k b a =
     (if a > 0 then
        do {
          ar \<leftarrow> lread f a;
          if af_cmp ap k b (rec_b ar) \<le> 0
          then (if get_l k ar > 0 then startge_loop ap f k b (get_l k ar)
                else Some a)
          else (if get_r k ar > 0 then startge_loop ap f k b (get_r k ar)
                else Some (- get_r k ar))
        }
      else Some a)"

text \<open>
  What both functions do with the position \<open>a\<close> found: copy the record and
  set the two pointers of key \<open>k\<close> in the current-pointer record. The
  results are the return value, the data buffer and the file.
\<close>

definition start_finish ::
  "avl_file_struct \<Rightarrow> afile \<Rightarrow> nat \<Rightarrow> payload \<Rightarrow> int \<Rightarrow> avl_struct
     \<Rightarrow> (int \<times> payload \<times> afile) option" where
  "start_finish ap f k data a sr0 =
     do {
       cpr \<leftarrow> lread f (af_cpr ap);
       (ret, data, cpr) \<leftarrow>
         (if a > 0 then
            do {
              ar \<leftarrow> lread f a;
              (sp, sr) \<leftarrow> tree_prev f k ar sr0;
              let cpr = set_l k sp cpr;
              (sp, sr) \<leftarrow> tree_next f k ar sr;
              let cpr = set_r k sp cpr;
              Some (0, rec_b ar, cpr)
            }
          else Some (- 1, data, set_r k 0 (set_l k 0 cpr)));
       f \<leftarrow> lwrite ap f (af_cpr ap) cpr;
       Some (ret, data, f)
     }"

definition avl_file_startlt ::
  "avl_file_struct \<Rightarrow> afile \<Rightarrow> payload \<Rightarrow> int \<Rightarrow> avl_struct \<Rightarrow> (int \<times> payload \<times> afile) option" where
  "avl_file_startlt ap f data k sr0 =
     (if k < 0 \<or> k \<ge> int (af_n_keys ap) then Some (- 1, data, f)
      else do {
        h \<leftarrow> lread_hdr ap f;
        a \<leftarrow> startlt_loop ap f (nat k) data (root h ! nat k);
        start_finish ap f (nat k) data a sr0
      })"

definition avl_file_startge ::
  "avl_file_struct \<Rightarrow> afile \<Rightarrow> payload \<Rightarrow> int \<Rightarrow> avl_struct \<Rightarrow> (int \<times> payload \<times> afile) option" where
  "avl_file_startge ap f data k sr0 =
     (if k < 0 \<or> k \<ge> int (af_n_keys ap) then Some (- 1, data, f)
      else do {
        h \<leftarrow> lread_hdr ap f;
        a \<leftarrow> startge_loop ap f (nat k) data (root h ! nat k);
        start_finish ap f (nat k) data a sr0
      })"

definition avl_file_next ::
  "avl_file_struct \<Rightarrow> afile \<Rightarrow> payload \<Rightarrow> int \<Rightarrow> avl_struct \<Rightarrow> (int \<times> payload \<times> afile) option" where
  "avl_file_next ap f data k sr0 =
     (if k < 0 \<or> k \<ge> int (af_n_keys ap) then Some (- 1, data, f)
      else do {
        cpr \<leftarrow> lread f (af_cpr ap);
        let a = get_r (nat k) cpr;
        if a > 0 then
          do {
            ar \<leftarrow> lread f a;
            (sp, sr) \<leftarrow> tree_next f (nat k) ar sr0;
            f \<leftarrow> lwrite ap f (af_cpr ap) (set_r (nat k) sp cpr);
            Some (0, rec_b ar, f)
          }
        else Some (- 1, data, f)
      })"

definition avl_file_prev ::
  "avl_file_struct \<Rightarrow> afile \<Rightarrow> payload \<Rightarrow> int \<Rightarrow> avl_struct \<Rightarrow> (int \<times> payload \<times> afile) option" where
  "avl_file_prev ap f data k sr0 =
     (if k < 0 \<or> k \<ge> int (af_n_keys ap) then Some (- 1, data, f)
      else do {
        cpr \<leftarrow> lread f (af_cpr ap);
        let a = get_l (nat k) cpr;
        if a > 0 then
          do {
            ar \<leftarrow> lread f a;
            (sp, sr) \<leftarrow> tree_prev f (nat k) ar sr0;
            f \<leftarrow> lwrite ap f (af_cpr ap) (set_l (nat k) sp cpr);
            Some (0, rec_b ar, f)
          }
        else Some (- 1, data, f)
      })"

text \<open>\<open>avl_file_find\<close> searches with a copy \<open>b\<close> of the data and copies
  back only when the record found compares equal.\<close>

definition avl_file_find ::
  "avl_file_struct \<Rightarrow> afile \<Rightarrow> payload \<Rightarrow> int \<Rightarrow> avl_struct \<Rightarrow> (int \<times> payload \<times> afile) option" where
  "avl_file_find ap f data k sr0 =
     do {
       (ret, b, f) \<leftarrow> avl_file_startge ap f data k sr0;
       if ret = 0 then
         (if af_cmp ap (nat k) b data = 0 then Some (0, b, f) else Some (- 1, data, f))
       else Some (- 1, data, f)
     }"

section \<open>The search for a record among equal keys, and avl\_file\_update\<close>

text \<open>
  \<open>avl_file_update\<close>, \<open>avl_file_delete\<close> (twice) and
  \<open>avl_file_squash\<close> contain the same loop of two labels: it descends
  from the root, to the left where the data compares less or equal,
  remembers on \<^verbatim>\<open>stack\<close> the levels where it compared equal, and at
  the end of a branch takes the last such level, tests the record there and
  goes on to its right when the test fails. The four copies differ in that
  test only, which is the parameter \<open>ok\<close> (of the position and the record).

  The local arrays \<^verbatim>\<open>pa[128]\<close>, \<^verbatim>\<open>par[128]\<close> and
  \<^verbatim>\<open>stack[128]\<close> are functions of the index; an index beyond 127 is
  undefined behaviour in C and \<open>None\<close> here. The result is \<open>Some None\<close>
  when the search ends without a record, and the level \<open>l\<close> with the two
  arrays of the path otherwise.
\<close>

type_synonym 'a arr = "int \<Rightarrow> 'a"

partial_function (option) path_loop ::
  "avl_file_struct \<Rightarrow> afile \<Rightarrow> nat \<Rightarrow> payload \<Rightarrow> (int \<Rightarrow> avl_struct \<Rightarrow> bool)
     \<Rightarrow> int \<Rightarrow> int \<Rightarrow> int arr \<Rightarrow> avl_struct arr \<Rightarrow> int arr
     \<Rightarrow> (int \<times> int arr \<times> avl_struct arr) option option" where
  "path_loop ap f k yb ok l m pa par stack =
     (if pa l > 0 then
        do {
          r \<leftarrow> lread f (pa l);
          let par = par(l := r);
          let i = af_cmp ap k yb (rec_b r);
          if i \<le> 0 then
            (if l + 1 \<ge> 128 \<or> (i = 0 \<and> m \<ge> 128) then None
             else path_loop ap f k yb ok (l + 1) (if i = 0 then m + 1 else m)
                    (pa(l + 1 := get_l k r)) par (if i = 0 then stack(m := l) else stack))
          else
            (if l + 1 \<ge> 128 then None
             else path_loop ap f k yb ok (l + 1) m (pa(l + 1 := get_r k r)) par stack)
        }
      else if m > 0 then
        (let l = stack (m - 1) in
         if ok (pa l) (par l) then Some (Some (l, pa, par))
         else if l + 1 \<ge> 128 then None
         else path_loop ap f k yb ok (l + 1) (m - 1) (pa(l + 1 := get_r k (par l))) par stack)
      else Some None)"

text \<open>The arrays before anything is stored in them: every entry read by
  the code has been written before. \<open>yr0\<close> stands for the content of a
  local record that has not been assigned.\<close>

definition pa0 :: "int arr" where
  "pa0 = (\<lambda>_. 0)"

definition par0 :: "avl_struct \<Rightarrow> avl_struct arr" where
  "par0 yr0 = (\<lambda>_. yr0)"

definition all_keys_equal :: "avl_file_struct \<Rightarrow> payload \<Rightarrow> payload \<Rightarrow> bool" where
  "all_keys_equal ap a b = list_all (\<lambda>i. af_cmp ap i a b = 0) [0..<af_n_keys ap]"

text \<open>\<open>avl_file_update\<close> returns the return value and the file.\<close>

definition avl_file_update ::
  "avl_file_struct \<Rightarrow> afile \<Rightarrow> payload \<Rightarrow> avl_struct \<Rightarrow> (int \<times> afile) option" where
  "avl_file_update ap f data yr0 =
     do {
       h \<leftarrow> lread_hdr ap f;
       found \<leftarrow>
         (if af_n_keys ap > 0
          then path_loop ap f 0 data (\<lambda>p r. all_keys_equal ap data (rec_b r))
                 0 0 (pa0(0 := root h ! 0)) (par0 yr0) pa0
          else Some None);
       let (y, yr) = (case found of None \<Rightarrow> (0, yr0) | Some (l, pa, par) \<Rightarrow> (pa l, par l));
       if y = 0 then Some (- 1, f)
       else do {
         f \<leftarrow> lwrite ap f y (yr\<lparr>rec_b := data\<rparr>);
         Some (0, f)
       }
     }"

section \<open>avl\_file\_delete\<close>

definition set_node :: "nat \<Rightarrow> avl_node_struct \<Rightarrow> avl_struct \<Rightarrow> avl_struct" where
  "set_node k nd r = r\<lparr>rec_n := (rec_n r)[k := nd]\<rparr>"

text \<open>
  The first search: for each key in turn the descent of
  \<open>avl_file_startge\<close>, accepting the record found when it compares equal
  and all its bytes match. \<open>yr\<close> is the local record, 0 the position when
  no key finds the record.
\<close>

fun delete_search1 ::
  "avl_file_struct \<Rightarrow> afile \<Rightarrow> hdr_struct \<Rightarrow> payload \<Rightarrow> nat list \<Rightarrow> avl_struct
     \<Rightarrow> (int \<times> avl_struct) option" where
  "delete_search1 ap f h data [] yr = Some (0, yr)"
| "delete_search1 ap f h data (k # ks) yr =
     do {
       a \<leftarrow> startge_loop ap f k data (root h ! k);
       if a > 0 then
         do {
           ar \<leftarrow> lread f a;
           if af_cmp ap k data (rec_b ar) = 0 \<and> data = rec_b ar then Some (a, ar)
           else delete_search1 ap f h data ks yr
         }
       else delete_search1 ap f h data ks yr
     }"

text \<open>The third search, along the sequential list.\<close>

partial_function (option) delete_seq_scan ::
  "afile \<Rightarrow> payload \<Rightarrow> int \<Rightarrow> avl_struct \<Rightarrow> (int \<times> avl_struct) option" where
  "delete_seq_scan f data a yr =
     (if a > 0 then
        do {
          ar \<leftarrow> lread f a;
          if data = rec_b ar then Some (a, ar)
          else delete_seq_scan f data (rec_next ar) yr
        }
      else Some (0, yr))"

text \<open>The previous and next records of \<open>y\<close> for each key, kept in the
  nodes of the local record \<open>ur\<close>.\<close>

fun delete_neighbours ::
  "afile \<Rightarrow> avl_struct \<Rightarrow> nat list \<Rightarrow> avl_struct \<Rightarrow> avl_struct \<Rightarrow> (avl_struct \<times> avl_struct) option" where
  "delete_neighbours f yr [] ur spr = Some (ur, spr)"
| "delete_neighbours f yr (k # ks) ur spr =
     do {
       (sp, spr) \<leftarrow> tree_prev f k yr spr;
       let ur = set_l k sp ur;
       (sp, spr) \<leftarrow> tree_next f k yr spr;
       let ur = set_r k sp ur;
       delete_neighbours f yr ks ur spr
     }"

text \<open>The current-pointer records that point to \<open>y\<close> are advanced.\<close>

definition advance_cpr ::
  "avl_file_struct \<Rightarrow> int \<Rightarrow> avl_struct \<Rightarrow> avl_struct \<Rightarrow> avl_struct \<Rightarrow> avl_struct \<times> bool" where
  "advance_cpr ap y yr ur cpr =
     fold (\<lambda>k (cpr, updated).
             let (cpr, updated) =
                   (if get_l k cpr = y then (set_l k (get_l k ur) cpr, True) else (cpr, updated))
             in (if get_r k cpr = y then (set_r k (get_r k ur) cpr, True) else (cpr, updated)))
       [0..<af_n_keys ap]
       (if rec_prev cpr = y then (cpr\<lparr>rec_prev := rec_next yr\<rparr>, True) else (cpr, False))"

partial_function (option) delete_cpr_loop ::
  "avl_file_struct \<Rightarrow> afile \<Rightarrow> int \<Rightarrow> avl_struct \<Rightarrow> avl_struct \<Rightarrow> int \<Rightarrow> afile option" where
  "delete_cpr_loop ap f y yr ur cp =
     (if cp > 0 then
        do {
          cpr \<leftarrow> lread f cp;
          let (cpr, updated) = advance_cpr ap y yr ur cpr;
          f \<leftarrow> (if updated then lwrite ap f cp cpr else Some f);
          delete_cpr_loop ap f y yr ur (rec_next cpr)
        }
      else Some f)"

text \<open>The walks to the rightmost and leftmost record of a subtree that
  extend the path.\<close>

partial_function (option) descend_r ::
  "afile \<Rightarrow> nat \<Rightarrow> int \<Rightarrow> int arr \<Rightarrow> avl_struct arr \<Rightarrow> (int \<times> int arr \<times> avl_struct arr) option" where
  "descend_r f k l pa par =
     (if get_r k (par l) > 0 then
        (if l + 1 \<ge> 128 then None
         else do {
           r \<leftarrow> lread f (get_r k (par l));
           descend_r f k (l + 1) (pa(l + 1 := get_r k (par l))) (par(l + 1 := r))
         })
      else Some (l, pa, par))"

partial_function (option) descend_l ::
  "afile \<Rightarrow> nat \<Rightarrow> int \<Rightarrow> int arr \<Rightarrow> avl_struct arr \<Rightarrow> (int \<times> int arr \<times> avl_struct arr) option" where
  "descend_l f k l pa par =
     (if get_l k (par l) > 0 then
        (if l + 1 \<ge> 128 then None
         else do {
           r \<leftarrow> lread f (get_l k (par l));
           descend_l f k (l + 1) (pa(l + 1 := get_l k (par l))) (par(l + 1 := r))
         })
      else Some (l, pa, par))"

text \<open>
  ``Remove and replace'', in pieces. \<open>l\<close> is the level of \<open>y\<close> on the
  path and \<open>m\<close> keeps it.

  \<open>delete_take_pred\<close>: with the left child of \<open>y\<close> at level \<open>l\<close>, walk
  to the rightmost record of that subtree, the in-order predecessor; when it
  lies deeper, its parent takes over its left subtree (or a thread to it) and
  a balance change, otherwise the local record \<open>yr\<close> does.
  \<open>delete_take_succ\<close> is the mirror image.
\<close>

definition delete_take_pred ::
  "avl_file_struct \<Rightarrow> nat \<Rightarrow> afile \<Rightarrow> avl_struct \<Rightarrow> int \<Rightarrow> int arr \<Rightarrow> avl_struct arr
     \<Rightarrow> (afile \<times> avl_struct \<times> int \<times> int arr \<times> avl_struct arr) option" where
  "delete_take_pred ap k f yr l pa par =
     (if get_r k (par l) > 0 then
        do {
          (l, pa, par) \<leftarrow> descend_r f k l pa par;
          let p = set_r k (if get_l k (par l) > 0 then get_l k (par l) else - pa l) (par (l - 1));
          let p = set_b k (get_b k p + 1) p;
          let par = par(l - 1 := p);
          f \<leftarrow> lwrite ap f (pa (l - 1)) (par (l - 1));
          Some (f, yr, l, pa, par)
        }
      else
        (let yr = set_l k (get_l k (par l)) yr;
             yr = set_b k (get_b k yr - 1) yr
         in Some (f, yr, l, pa, par)))"

definition delete_take_succ ::
  "avl_file_struct \<Rightarrow> nat \<Rightarrow> afile \<Rightarrow> avl_struct \<Rightarrow> int \<Rightarrow> int arr \<Rightarrow> avl_struct arr
     \<Rightarrow> (afile \<times> avl_struct \<times> int \<times> int arr \<times> avl_struct arr) option" where
  "delete_take_succ ap k f yr l pa par =
     (if get_l k (par l) > 0 then
        do {
          (l, pa, par) \<leftarrow> descend_l f k l pa par;
          let p = set_l k (if get_r k (par l) > 0 then get_r k (par l) else - pa l) (par (l - 1));
          let p = set_b k (get_b k p - 1) p;
          let par = par(l - 1 := p);
          f \<leftarrow> lwrite ap f (pa (l - 1)) (par (l - 1));
          Some (f, yr, l, pa, par)
        }
      else
        (let yr = set_r k (get_r k (par l)) yr;
             yr = set_b k (get_b k yr + 1) yr
         in Some (f, yr, l, pa, par)))"

text \<open>The record at level \<open>l\<close> takes the place of \<open>y\<close> at level \<open>m\<close>
  and its node of key \<open>k\<close>.\<close>

definition delete_replace ::
  "avl_file_struct \<Rightarrow> nat \<Rightarrow> afile \<Rightarrow> avl_struct \<Rightarrow> int \<Rightarrow> int \<Rightarrow> int arr \<Rightarrow> avl_struct arr
     \<Rightarrow> (afile \<times> int \<times> int arr \<times> avl_struct arr) option" where
  "delete_replace ap k f yr m l pa par =
     (let pa = pa(m := pa l);
          par = par(m := par l);
          l = l - 1;
          par = par(m := set_node k (rec_n yr ! k) (par m))
      in do {
        f \<leftarrow> lwrite ap f (pa m) (par m);
        Some (f, l, pa, par)
      })"

text \<open>The root pointer or the parent of \<open>y\<close> is set to the record that
  took its place.\<close>

definition delete_reparent ::
  "avl_file_struct \<Rightarrow> nat \<Rightarrow> int \<Rightarrow> afile \<Rightarrow> hdr_struct \<Rightarrow> int \<Rightarrow> int arr \<Rightarrow> avl_struct arr
     \<Rightarrow> (afile \<times> hdr_struct \<times> avl_struct arr) option" where
  "delete_reparent ap k y f h m pa par =
     (if m = 0 then Some (f, h\<lparr>root := (root h)[k := pa m]\<rparr>, par)
      else
        (let p = (if get_l k (par (m - 1)) = y then set_l k (pa m) (par (m - 1))
                  else set_r k (pa m) (par (m - 1)))
         in do {
           f \<leftarrow> lwrite ap f (pa (m - 1)) p;
           Some (f, h, par(m - 1 := p))
         }))"

text \<open>The three cases: \<open>y\<close> has a left subtree; it has a right subtree
  only; it has none.\<close>

definition delete_unlink_left ::
  "avl_file_struct \<Rightarrow> nat \<Rightarrow> int \<Rightarrow> avl_struct \<Rightarrow> afile \<Rightarrow> hdr_struct \<Rightarrow> avl_struct
     \<Rightarrow> int \<Rightarrow> int arr \<Rightarrow> avl_struct arr
     \<Rightarrow> (afile \<times> hdr_struct \<times> avl_struct \<times> int \<times> int arr \<times> avl_struct arr) option" where
  "delete_unlink_left ap k y ur f h yr l pa par =
     (let m = l in
      if l + 1 \<ge> 128 then None
      else do {
        let pa = pa(l + 1 := get_l k (par l));
        let l = l + 1;
        r \<leftarrow> lread f (pa l);
        let par = par(l := r);
        (f, yr, l, pa, par) \<leftarrow> delete_take_pred ap k f yr l pa par;
        (f, l, pa, par) \<leftarrow> delete_replace ap k f yr m l pa par;
        f \<leftarrow> (if get_r k yr > 0 then
                do {
                  spr \<leftarrow> lread f (get_r k ur);
                  lwrite ap f (get_r k ur) (set_l k (- pa m) spr)
                }
              else Some f);
        (f, h, par) \<leftarrow> delete_reparent ap k y f h m pa par;
        Some (f, h, yr, l, pa, par)
      })"

definition delete_unlink_right ::
  "avl_file_struct \<Rightarrow> nat \<Rightarrow> int \<Rightarrow> avl_struct \<Rightarrow> afile \<Rightarrow> hdr_struct \<Rightarrow> avl_struct
     \<Rightarrow> int \<Rightarrow> int arr \<Rightarrow> avl_struct arr
     \<Rightarrow> (afile \<times> hdr_struct \<times> avl_struct \<times> int \<times> int arr \<times> avl_struct arr) option" where
  "delete_unlink_right ap k y ur f h yr l pa par =
     (let m = l in
      if l + 1 \<ge> 128 then None
      else do {
        let pa = pa(l + 1 := get_r k (par l));
        let l = l + 1;
        r \<leftarrow> lread f (pa l);
        let par = par(l := r);
        (f, yr, l, pa, par) \<leftarrow> delete_take_succ ap k f yr l pa par;
        (f, l, pa, par) \<leftarrow> delete_replace ap k f yr m l pa par;
        f \<leftarrow> (if get_l k yr > 0 then
                do {
                  spr \<leftarrow> lread f (get_l k ur);
                  lwrite ap f (get_l k ur) (set_r k (- pa m) spr)
                }
              else Some f);
        (f, h, par) \<leftarrow> delete_reparent ap k y f h m pa par;
        Some (f, h, yr, l, pa, par)
      })"

definition delete_unlink_leaf ::
  "avl_file_struct \<Rightarrow> nat \<Rightarrow> int \<Rightarrow> afile \<Rightarrow> hdr_struct \<Rightarrow> avl_struct
     \<Rightarrow> int \<Rightarrow> int arr \<Rightarrow> avl_struct arr
     \<Rightarrow> (afile \<times> hdr_struct \<times> avl_struct \<times> int \<times> int arr \<times> avl_struct arr) option" where
  "delete_unlink_leaf ap k y f h yr l pa par =
     (let m = l in
      do {
        (f, h, par) \<leftarrow>
          (if m = 0 then Some (f, h\<lparr>root := (root h)[k := 0]\<rparr>, par)
           else
             (let p = par (m - 1);
                  p = (if get_l k p = y
                       then set_b k (get_b k p - 1) (set_l k (get_l k yr) p)
                       else if get_r k p = y
                       then set_b k (get_b k p + 1) (set_r k (get_r k yr) p)
                       else p)
              in do {
                f \<leftarrow> lwrite ap f (pa (m - 1)) p;
                Some (f, h, par(m - 1 := p))
              }));
        Some (f, h, yr, l - 1, pa, par)
      })"

text \<open>The results of ``Remove and replace'' are the file, the header, the
  local record \<open>yr\<close>, and the path, which ends at the lowest record whose
  balance has changed.\<close>

definition delete_unlink ::
  "avl_file_struct \<Rightarrow> nat \<Rightarrow> int \<Rightarrow> avl_struct \<Rightarrow> afile \<Rightarrow> hdr_struct \<Rightarrow> avl_struct
     \<Rightarrow> int \<Rightarrow> int arr \<Rightarrow> avl_struct arr
     \<Rightarrow> (afile \<times> hdr_struct \<times> avl_struct \<times> int \<times> int arr \<times> avl_struct arr) option" where
  "delete_unlink ap k y ur f h yr l pa par =
     (if get_l k (par l) > 0 then delete_unlink_left ap k y ur f h yr l pa par
      else if get_r k (par l) > 0 then delete_unlink_right ap k y ur f h yr l pa par
      else delete_unlink_leaf ap k y f h yr l pa par)"

text \<open>
  The rotations. \<open>a\<close> is the record out of balance, \<open>b\<close> its child on
  the heavy side, \<open>c\<close> the inner child of \<open>b\<close> in a double rotation. A
  child field that loses its subtree gets the negated position of the
  in-order neighbour. The results are the file and the new root of the
  subtree with its record. The double rotations are the same code in
  \<open>avl_file_insert\<close> and \<open>avl_file_delete\<close>.
\<close>

definition rot_cases ::
  "nat \<Rightarrow> avl_struct \<Rightarrow> avl_struct \<Rightarrow> avl_struct \<Rightarrow> avl_struct \<times> avl_struct" where
  "rot_cases k cr hi lo =
     (if get_b k cr = 1 then (set_b k (- 1) hi, set_b k 0 lo)
      else if get_b k cr = - 1 then (set_b k 0 hi, set_b k 1 lo)
      else if get_b k cr = 0 then (set_b k 0 hi, set_b k 0 lo)
      else (hi, lo))"

definition rot_lr ::
  "avl_file_struct \<Rightarrow> nat \<Rightarrow> afile \<Rightarrow> int \<Rightarrow> avl_struct \<Rightarrow> int \<Rightarrow> avl_struct
     \<Rightarrow> (afile \<times> int \<times> avl_struct) option" where
  "rot_lr ap k f a ar b br =
     do {
       let c = get_r k br;
       cr \<leftarrow> lread f c;
       let br = set_r k (if get_l k cr > 0 then get_l k cr else - c) br;
       let ar = set_l k (if get_r k cr > 0 then get_r k cr else - c) ar;
       let cr = set_l k b cr;
       let cr = set_r k a cr;
       let (ar, br) = rot_cases k cr ar br;
       let cr = set_b k 0 cr;
       f \<leftarrow> lwrite ap f a ar;
       f \<leftarrow> lwrite ap f b br;
       f \<leftarrow> lwrite ap f c cr;
       Some (f, c, cr)
     }"

definition rot_rl ::
  "avl_file_struct \<Rightarrow> nat \<Rightarrow> afile \<Rightarrow> int \<Rightarrow> avl_struct \<Rightarrow> int \<Rightarrow> avl_struct
     \<Rightarrow> (afile \<times> int \<times> avl_struct) option" where
  "rot_rl ap k f a ar b br =
     do {
       let c = get_l k br;
       cr \<leftarrow> lread f c;
       let ar = set_r k (if get_l k cr > 0 then get_l k cr else - c) ar;
       let br = set_l k (if get_r k cr > 0 then get_r k cr else - c) br;
       let cr = set_r k b cr;
       let cr = set_l k a cr;
       let (br, ar) = rot_cases k cr br ar;
       let cr = set_b k 0 cr;
       f \<leftarrow> lwrite ap f a ar;
       f \<leftarrow> lwrite ap f b br;
       f \<leftarrow> lwrite ap f c cr;
       Some (f, c, cr)
     }"

text \<open>The rotations of the deletion around \<open>a\<close>: for the balance +2
  with the left child \<open>b\<close>, and for -2 with the right child.\<close>

definition delete_rotate_l ::
  "avl_file_struct \<Rightarrow> nat \<Rightarrow> afile \<Rightarrow> int \<Rightarrow> avl_struct \<Rightarrow> (afile \<times> int \<times> avl_struct) option" where
  "delete_rotate_l ap k f a ar =
     do {
       let b = get_l k ar;
       br \<leftarrow> lread f b;
       if get_b k br = 0 \<or> get_b k br = 1 then
         do {
           let ar = set_l k (if get_r k br > 0 then get_r k br else - b) ar;
           let b0 = get_b k br;
           let br = set_r k a br;
           let ar = set_b k (if b0 = 0 then 1 else 0) ar;
           let br = set_b k (if b0 = 0 then - 1 else 0) br;
           f \<leftarrow> lwrite ap f a ar;
           f \<leftarrow> lwrite ap f b br;
           Some (f, b, br)
         }
       else rot_lr ap k f a ar b br
     }"

definition delete_rotate_r ::
  "avl_file_struct \<Rightarrow> nat \<Rightarrow> afile \<Rightarrow> int \<Rightarrow> avl_struct \<Rightarrow> (afile \<times> int \<times> avl_struct) option" where
  "delete_rotate_r ap k f a ar =
     do {
       let b = get_r k ar;
       br \<leftarrow> lread f b;
       if get_b k br = 0 \<or> get_b k br = - 1 then
         do {
           let ar = set_r k (if get_l k br > 0 then get_l k br else - b) ar;
           let b0 = get_b k br;
           let br = set_l k a br;
           let ar = set_b k (if b0 = 0 then - 1 else 0) ar;
           let br = set_b k (if b0 = 0 then 1 else 0) br;
           f \<leftarrow> lwrite ap f a ar;
           f \<leftarrow> lwrite ap f b br;
           Some (f, b, br)
         }
       else rot_rl ap k f a ar b br
     }"

text \<open>After a rotation at level \<open>l\<close> the root pointer or the parent takes
  the new root \<open>b\<close> of the subtree in place of \<open>a\<close>.\<close>

definition rebalance_reparent ::
  "avl_file_struct \<Rightarrow> nat \<Rightarrow> afile \<Rightarrow> hdr_struct \<Rightarrow> int \<Rightarrow> int \<Rightarrow> int arr \<Rightarrow> avl_struct arr
     \<Rightarrow> (afile \<times> hdr_struct \<times> avl_struct arr) option" where
  "rebalance_reparent ap k f h a l pa par =
     (if l = 0 then Some (f, h\<lparr>root := (root h)[k := pa l]\<rparr>, par)
      else
        (let p = par (l - 1);
             p = (if get_l k p = a then set_l k (pa l) p
                  else if get_r k p = a then set_r k (pa l) p
                  else p)
         in do {
           f \<leftarrow> lwrite ap f (pa (l - 1)) p;
           Some (f, h, par(l - 1 := p))
         }))"

text \<open>A subtree at level \<open>l\<close> with balance 0 has lost height: the balance
  of its parent changes.\<close>

definition rebalance_up ::
  "avl_file_struct \<Rightarrow> nat \<Rightarrow> afile \<Rightarrow> int \<Rightarrow> int \<Rightarrow> int arr \<Rightarrow> avl_struct arr
     \<Rightarrow> (afile \<times> avl_struct arr) option" where
  "rebalance_up ap k f a l pa par =
     (if l > 0 then
        (let p = par (l - 1);
             p = (if get_l k p = a then set_b k (get_b k p - 1) p
                  else if get_r k p = a then set_b k (get_b k p + 1) p
                  else p)
         in do {
           f \<leftarrow> lwrite ap f (pa (l - 1)) p;
           Some (f, par(l - 1 := p))
         })
      else Some (f, par))"

text \<open>The loop ``Re-balance'' up the path. A balance other than -2, \<open>\<dots>\<close>,
  +2 ends it (``bad balance factor'').\<close>

partial_function (option) delete_rebalance ::
  "avl_file_struct \<Rightarrow> nat \<Rightarrow> afile \<Rightarrow> hdr_struct \<Rightarrow> int \<Rightarrow> int arr \<Rightarrow> avl_struct arr
     \<Rightarrow> (afile \<times> hdr_struct) option" where
  "delete_rebalance ap k f h l pa par =
     (if l \<ge> 0 then
        (let a = pa l; ar = par l in
         if get_b k ar = 1 \<or> get_b k ar = - 1 then Some (f, h)
         else if get_b k ar = 0 then
           do {
             (f, par) \<leftarrow> rebalance_up ap k f a l pa par;
             delete_rebalance ap k f h (l - 1) pa par
           }
         else if get_b k ar = 2 then
           do {
             (f, b, br) \<leftarrow> delete_rotate_l ap k f a ar;
             (f, h, par) \<leftarrow> rebalance_reparent ap k f h a l (pa(l := b)) (par(l := br));
             delete_rebalance ap k f h l (pa(l := b)) par
           }
         else if get_b k ar = - 2 then
           do {
             (f, b, br) \<leftarrow> delete_rotate_r ap k f a ar;
             (f, h, par) \<leftarrow> rebalance_reparent ap k f h a l (pa(l := b)) (par(l := br));
             delete_rebalance ap k f h l (pa(l := b)) par
           }
         else Some (f, h))
      else Some (f, h))"

text \<open>The removal from the tree of every key. A key in whose tree the
  record is not found is passed over (``not in the tree'').\<close>

fun delete_keys ::
  "avl_file_struct \<Rightarrow> int \<Rightarrow> avl_struct \<Rightarrow> avl_struct \<Rightarrow> nat list \<Rightarrow> afile \<Rightarrow> hdr_struct \<Rightarrow> avl_struct
     \<Rightarrow> (afile \<times> hdr_struct \<times> avl_struct) option" where
  "delete_keys ap y ur yr0 [] f h yr = Some (f, h, yr)"
| "delete_keys ap y ur yr0 (k # ks) f h yr =
     do {
       found \<leftarrow> path_loop ap f k (rec_b yr) (\<lambda>p r. p = y)
                 0 0 (pa0(0 := root h ! k)) (par0 yr0) pa0;
       case found of
         None \<Rightarrow> delete_keys ap y ur yr0 ks f h yr
       | Some (l, pa, par) \<Rightarrow>
           do {
             (f, h, yr, l, pa, par) \<leftarrow> delete_unlink ap k y ur f h yr l pa par;
             (f, h) \<leftarrow> delete_rebalance ap k f h l pa par;
             delete_keys ap y ur yr0 ks f h yr
           }
     }"

text \<open>
  The three searches for a record with the bytes of \<open>data\<close>: by each
  key, by the first key among the records of equal keys, and along the
  sequential list. The result is the position, 0 for none, and the record.
  \<open>yr0\<close> is the content of the local records before they are assigned.
\<close>

definition delete_find ::
  "avl_file_struct \<Rightarrow> afile \<Rightarrow> hdr_struct \<Rightarrow> payload \<Rightarrow> avl_struct \<Rightarrow> (int \<times> avl_struct) option" where
  "delete_find ap f h data yr0 =
     do {
       let yr = yr0\<lparr>rec_b := data\<rparr>;
       (y, yr) \<leftarrow> delete_search1 ap f h data [0..<af_n_keys ap] yr;
       (y, yr) \<leftarrow>
         (if y = 0 \<and> af_n_keys ap > 0 then
            do {
              found \<leftarrow> path_loop ap f 0 (rec_b yr)
                         (\<lambda>p r. all_keys_equal ap (rec_b yr) (rec_b r) \<and> rec_b yr = rec_b r)
                         0 0 (pa0(0 := root h ! 0)) (par0 yr0) pa0;
              Some (case found of None \<Rightarrow> (y, yr) | Some (l, pa, par) \<Rightarrow> (pa l, par l))
            }
          else Some (y, yr));
       if y = 0 then delete_seq_scan f (rec_b yr) (head_seq h) yr else Some (y, yr)
     }"

text \<open>The record leaves the sequential list.\<close>

definition delete_seq_unlink ::
  "avl_file_struct \<Rightarrow> afile \<Rightarrow> hdr_struct \<Rightarrow> int \<Rightarrow> avl_struct \<Rightarrow> (afile \<times> hdr_struct) option" where
  "delete_seq_unlink ap f h y yr =
     do {
       f \<leftarrow> (if rec_next yr > 0 then
               do {
                 ar \<leftarrow> lread f (rec_next yr);
                 lwrite ap f (rec_next yr) (ar\<lparr>rec_prev := rec_prev yr\<rparr>)
               }
             else Some f);
       if head_seq h = y then Some (f, h\<lparr>head_seq := rec_next yr\<rparr>)
       else do {
         ar \<leftarrow> lread f (rec_prev yr);
         f \<leftarrow> lwrite ap f (rec_prev yr) (ar\<lparr>rec_next := rec_next yr\<rparr>);
         Some (f, h)
       }
     }"

text \<open>The record is added to the list of empty records.\<close>

definition delete_free ::
  "avl_file_struct \<Rightarrow> afile \<Rightarrow> hdr_struct \<Rightarrow> int \<Rightarrow> avl_struct \<Rightarrow> (afile \<times> hdr_struct) option" where
  "delete_free ap f h y yr =
     (let yr = yr\<lparr>rec_next := head_empty h\<rparr>;
          h = h\<lparr>head_empty := y\<rparr>;
          yr = yr\<lparr>rec_prev := 0\<rparr>;
          yr = yr\<lparr>rec_n := replicate (af_n_keys ap) empty_node\<rparr>
      in do {
        f \<leftarrow> lwrite ap f y yr;
        Some (f, h)
      })"

text \<open>\<open>avl_file_delete\<close> returns the return value and the file.\<close>

definition avl_file_delete ::
  "avl_file_struct \<Rightarrow> afile \<Rightarrow> payload \<Rightarrow> avl_struct \<Rightarrow> (int \<times> afile) option" where
  "avl_file_delete ap f data yr0 =
     do {
       h \<leftarrow> lread_hdr ap f;
       (y, yr) \<leftarrow> delete_find ap f h data yr0;
       if y = 0 then Some (- 1, f)
       else do {
         (ur, spr) \<leftarrow> delete_neighbours f yr [0..<af_n_keys ap] yr0 yr0;
         f \<leftarrow> delete_cpr_loop ap f y yr ur (head_cpr h);
         (f, h, yr) \<leftarrow> delete_keys ap y ur yr0 [0..<af_n_keys ap] f h yr;
         (f, h) \<leftarrow> delete_seq_unlink ap f h y yr;
         (f, h) \<leftarrow> delete_free ap f h y yr;
         let h = h\<lparr>n_avl := n_avl h - 1\<rparr>;
         f \<leftarrow> lwrite_hdr ap f h;
         Some (0, f)
       }
     }"

section \<open>avl\_file\_insert\<close>

text \<open>
  The descent of the insertion for one key: \<open>p\<close> runs down from the root,
  \<open>q\<close> follows as its parent, \<open>a\<close> is the last record passed whose
  balance is not 0 and \<open>fo\<close> the parent of \<open>a\<close> (the variable
  \<^verbatim>\<open>f\<close> of the C code). The loop ends with \<open>p\<close> the child field of
  \<open>q\<close> that is not a child.
\<close>

partial_function (option) insert_descend ::
  "avl_file_struct \<Rightarrow> afile \<Rightarrow> nat \<Rightarrow> payload
     \<Rightarrow> int \<Rightarrow> int \<Rightarrow> int \<Rightarrow> avl_struct \<Rightarrow> int \<Rightarrow> avl_struct
     \<Rightarrow> (int \<times> int \<times> int \<times> avl_struct \<times> int \<times> avl_struct) option" where
  "insert_descend ap f k yb p a fo fr q qr =
     (if p > 0 then
        do {
          pr \<leftarrow> lread f p;
          let (a, fo, fr) = (if get_b k pr \<noteq> 0 then (p, q, qr) else (a, fo, fr));
          if af_cmp ap k yb (rec_b pr) < 0
          then insert_descend ap f k yb (get_l k pr) a fo fr p pr
          else insert_descend ap f k yb (get_r k pr) a fo fr p pr
        }
      else Some (p, a, fo, fr, q, qr))"

text \<open>The balances on the way from the child of \<open>a\<close> to the new record
  \<open>y\<close>.\<close>

partial_function (option) insert_balance ::
  "avl_file_struct \<Rightarrow> afile \<Rightarrow> nat \<Rightarrow> payload \<Rightarrow> int \<Rightarrow> int \<Rightarrow> afile option" where
  "insert_balance ap f k yb y p =
     (if p \<noteq> y then
        do {
          pr \<leftarrow> lread f p;
          if af_cmp ap k yb (rec_b pr) < 0 then
            do {
              f \<leftarrow> lwrite ap f p (set_b k 1 pr);
              insert_balance ap f k yb y (get_l k pr)
            }
          else
            do {
              f \<leftarrow> lwrite ap f p (set_b k (- 1) pr);
              insert_balance ap f k yb y (get_r k pr)
            }
        }
      else Some f)"

text \<open>The rotation of the insertion around \<open>a\<close>, for \<open>d = +1\<close> (left)
  and \<open>d = -1\<close> (right); the result is the file and the new root \<open>b\<close> of
  the subtree.\<close>

definition insert_rotate ::
  "avl_file_struct \<Rightarrow> nat \<Rightarrow> afile \<Rightarrow> int \<Rightarrow> avl_struct \<Rightarrow> int \<Rightarrow> int \<Rightarrow> (afile \<times> int) option" where
  "insert_rotate ap k f a ar b d =
     (if d = 1 then
        do {
          br \<leftarrow> lread f b;
          if get_b k br = 1 then
            do {
              let ar = set_l k (if get_r k br > 0 then get_r k br else - b) ar;
              let br = set_r k a br;
              let ar = set_b k 0 ar;
              let br = set_b k 0 br;
              f \<leftarrow> lwrite ap f a ar;
              f \<leftarrow> lwrite ap f b br;
              Some (f, b)
            }
          else map_option (\<lambda>(f, c, cr). (f, c)) (rot_lr ap k f a ar b br)
        }
      else
        do {
          br \<leftarrow> lread f b;
          if get_b k br = - 1 then
            do {
              let ar = set_r k (if get_l k br > 0 then get_l k br else - b) ar;
              let br = set_l k a br;
              let ar = set_b k 0 ar;
              let br = set_b k 0 br;
              f \<leftarrow> lwrite ap f a ar;
              f \<leftarrow> lwrite ap f b br;
              Some (f, b)
            }
          else map_option (\<lambda>(f, c, cr). (f, c)) (rot_rl ap k f a ar b br)
        })"

text \<open>The new record \<open>y\<close> becomes a child of \<open>q\<close>: it inherits the
  thread \<open>p\<close> of \<open>q\<close> on that side and gets a thread to \<open>q\<close> on the
  other.\<close>

definition insert_link ::
  "avl_file_struct \<Rightarrow> nat \<Rightarrow> afile \<Rightarrow> int \<Rightarrow> avl_struct \<Rightarrow> int \<Rightarrow> int \<Rightarrow> avl_struct
     \<Rightarrow> (afile \<times> avl_struct) option" where
  "insert_link ap k f y yr p q qr =
     (let (yr, qr) =
            (if af_cmp ap k (rec_b yr) (rec_b qr) < 0
             then (set_node k \<lparr>node_b = 0, node_l = p, node_r = - q\<rparr> yr, set_l k y qr)
             else (set_node k \<lparr>node_b = 0, node_l = - q, node_r = p\<rparr> yr, set_r k y qr))
      in do {
        f \<leftarrow> lwrite ap f y yr;
        f \<leftarrow> lwrite ap f q qr;
        Some (f, yr)
      })"

text \<open>The balance of \<open>a\<close> after the insertion on side \<open>d\<close>; the flag
  says whether \<open>a\<close> is out of balance.\<close>

definition insert_adjust ::
  "avl_file_struct \<Rightarrow> nat \<Rightarrow> afile \<Rightarrow> int \<Rightarrow> avl_struct \<Rightarrow> int \<Rightarrow> (afile \<times> avl_struct \<times> bool) option" where
  "insert_adjust ap k f a ar d =
     do {
       (f, ar, unbalanced) \<leftarrow>
         (if get_b k ar = 0 then
            do { f \<leftarrow> lwrite ap f a (set_b k d ar); Some (f, set_b k d ar, False) }
          else Some (f, ar, True));
       if get_b k ar + d = 0 then
         do { f \<leftarrow> lwrite ap f a (set_b k 0 ar); Some (f, set_b k 0 ar, False) }
       else Some (f, ar, unbalanced)
     }"

text \<open>After the rotation the root pointer or the parent \<open>fo\<close> of \<open>a\<close>
  takes the new root \<open>b\<close> of the subtree.\<close>

definition insert_reparent ::
  "avl_file_struct \<Rightarrow> nat \<Rightarrow> afile \<Rightarrow> hdr_struct \<Rightarrow> int \<Rightarrow> int \<Rightarrow> int \<Rightarrow> avl_struct
     \<Rightarrow> (afile \<times> hdr_struct) option" where
  "insert_reparent ap k f h a b fo fr =
     (if fo = 0 then Some (f, h\<lparr>root := (root h)[k := b]\<rparr>)
      else
        (let fr = (if a = get_l k fr then set_l k b fr
                   else if a = get_r k fr then set_r k b fr
                   else fr)
         in do { f \<leftarrow> lwrite ap f fo fr; Some (f, h) }))"

text \<open>The body of the loop over the keys: the record at \<open>y\<close> is linked
  into the tree of key \<open>k\<close>. \<open>yr0\<close> is the content of the local records
  \<^verbatim>\<open>fr\<close> and \<^verbatim>\<open>qr\<close> before they are assigned.\<close>

definition insert_key ::
  "avl_file_struct \<Rightarrow> int \<Rightarrow> avl_struct \<Rightarrow> nat \<Rightarrow> afile \<Rightarrow> hdr_struct \<Rightarrow> (afile \<times> hdr_struct) option" where
  "insert_key ap y yr0 k f h =
     do {
       yr \<leftarrow> lread f y;
       if root h ! k > 0 then
         do {
           ar \<leftarrow> lread f (root h ! k);
           (p, a, fo, fr, q, qr) \<leftarrow>
             insert_descend ap f k (rec_b yr) (root h ! k) (root h ! k) 0 yr0 0 yr0;
           (f, yr) \<leftarrow> insert_link ap k f y yr p q qr;
           ar \<leftarrow> lread f a;
           let d = (if af_cmp ap k (rec_b yr) (rec_b ar) < 0 then 1 else - 1);
           let b = (if d = 1 then get_l k ar else get_r k ar);
           f \<leftarrow> insert_balance ap f k (rec_b yr) y b;
           (f, ar, unbalanced) \<leftarrow> insert_adjust ap k f a ar d;
           if unbalanced then
             do {
               (f, b) \<leftarrow> insert_rotate ap k f a ar b d;
               insert_reparent ap k f h a b fo fr
             }
           else Some (f, h)
         }
       else
         do {
           f \<leftarrow> lwrite ap f y (set_node k \<lparr>node_b = 0, node_l = 0, node_r = 0\<rparr> yr);
           Some (f, h\<lparr>root := (root h)[k := y]\<rparr>)
         }
     }"

fun insert_keys ::
  "avl_file_struct \<Rightarrow> int \<Rightarrow> avl_struct \<Rightarrow> nat list \<Rightarrow> afile \<Rightarrow> hdr_struct \<Rightarrow> (afile \<times> hdr_struct) option" where
  "insert_keys ap y yr0 [] f h = Some (f, h)"
| "insert_keys ap y yr0 (k # ks) f h =
     do {
       (f, h) \<leftarrow> insert_key ap y yr0 k f h;
       insert_keys ap y yr0 ks f h
     }"

text \<open>The position for the new record: the first empty record, which
  leaves the list of empty records, or the end of the file. \<open>yr0\<close> is the
  content of the local record \<^verbatim>\<open>yr\<close> when nothing is read into it.\<close>

definition insert_alloc ::
  "afile \<Rightarrow> hdr_struct \<Rightarrow> avl_struct \<Rightarrow> (int \<times> avl_struct \<times> hdr_struct) option" where
  "insert_alloc f h yr0 =
     (if head_empty h = 0 then Some (lim f, yr0, h)
      else do {
        yr \<leftarrow> lread f (head_empty h);
        Some (head_empty h, yr, h\<lparr>head_empty := rec_next yr\<rparr>)
      })"

text \<open>The new record is put in front of the sequential list and written
  with the data.\<close>

definition insert_front ::
  "avl_file_struct \<Rightarrow> afile \<Rightarrow> hdr_struct \<Rightarrow> int \<Rightarrow> avl_struct \<Rightarrow> payload
     \<Rightarrow> (afile \<times> hdr_struct) option" where
  "insert_front ap f h y yr data =
     (let yr = yr\<lparr>rec_prev := 0\<rparr>;
          yr = yr\<lparr>rec_next := head_seq h\<rparr>
      in do {
        f \<leftarrow> (if rec_next yr > 0 then
                do {
                  pr \<leftarrow> lread f (rec_next yr);
                  lwrite ap f (rec_next yr) (pr\<lparr>rec_prev := y\<rparr>)
                }
              else Some f);
        let h = h\<lparr>head_seq := y\<rparr>;
        let yr = yr\<lparr>rec_b := data\<rparr>;
        f \<leftarrow> lwrite ap f y yr;
        Some (f, h)
      })"

text \<open>
  \<open>avl_file_insert\<close> returns the return value and the file. The new
  record is linked into every tree after it has been put on the sequential
  list; the header is written last.
\<close>

definition avl_file_insert ::
  "avl_file_struct \<Rightarrow> afile \<Rightarrow> payload \<Rightarrow> avl_struct \<Rightarrow> (int \<times> afile) option" where
  "avl_file_insert ap f data yr0 =
     do {
       h \<leftarrow> lread_hdr ap f;
       if sint (n_avl h + 1) < 0 then Some (- 1, f)
       else do {
         (y, yr, h) \<leftarrow> insert_alloc f h yr0;
         (f, h) \<leftarrow> insert_front ap f h y yr data;
         (f, h) \<leftarrow> insert_keys ap y yr0 [0..<af_n_keys ap] f h;
         let h = h\<lparr>n_avl := n_avl h + 1\<rparr>;
         f \<leftarrow> lwrite_hdr ap f h;
         Some (0, f)
       }
     }"

section \<open>Specification: threaded trees and lists in the file\<close>

text \<open>
  The comparison function of a key is taken to be a total preorder given by
  the sign of its result: it is transitive, and \<open>cmp k a b > 0\<close> exactly
  when \<open>cmp k b a < 0\<close>.
\<close>

definition cmp_ok :: "(nat \<Rightarrow> payload \<Rightarrow> payload \<Rightarrow> int) \<Rightarrow> nat \<Rightarrow> bool" where
  "cmp_ok cmp k \<longleftrightarrow>
     (\<forall>a b c. cmp k a b \<le> 0 \<and> cmp k b c \<le> 0 \<longrightarrow> cmp k a c \<le> 0)
     \<and> (\<forall>a b. cmp k a b > 0 \<longleftrightarrow> cmp k b a < 0)"

text \<open>The data of the record at a position.\<close>

definition data_at :: "afile \<Rightarrow> int \<Rightarrow> payload" where
  "data_at f x = (case lread f x of None \<Rightarrow> [] | Some xr \<Rightarrow> rec_b xr)"

text \<open>
  The tree of key \<open>k\<close> as a binary tree of positions. A child field holds
  the position of the child, or, where the child is missing, the negated
  position of the in-order neighbour: \<open>lo\<close> is the predecessor of the whole
  subtree and \<open>hi\<close> its successor (0 when there is none).
\<close>

fun tlink :: "int tree \<Rightarrow> int \<Rightarrow> int" where
  "tlink Leaf th = - th"
| "tlink (Node lt x rt) th = x"

fun threaded :: "afile \<Rightarrow> nat \<Rightarrow> int tree \<Rightarrow> int \<Rightarrow> int \<Rightarrow> bool" where
  "threaded f k Leaf lo hi = True"
| "threaded f k (Node lt x rt) lo hi =
     (0 < x
      \<and> (case lread f x of None \<Rightarrow> False
          | Some xr \<Rightarrow> k < length (rec_n xr) \<and> get_l k xr = tlink lt lo \<and> get_r k xr = tlink rt hi)
      \<and> threaded f k lt lo x \<and> threaded f k rt x hi)"

definition ordered :: "avl_file_struct \<Rightarrow> afile \<Rightarrow> nat \<Rightarrow> int list \<Rightarrow> bool" where
  "ordered ap f k xs = sorted_wrt (\<lambda>x y. af_cmp ap k (data_at f x) (data_at f y) \<le> 0) xs"

text \<open>
  \<open>tree_of ap f k t\<close>: the header is readable, and \<open>t\<close> is the tree of key
  \<open>k\<close> under the root pointer, threaded, without repeated positions and in
  the order of the comparison function.
\<close>

definition tree_of :: "avl_file_struct \<Rightarrow> afile \<Rightarrow> nat \<Rightarrow> int tree \<Rightarrow> bool" where
  "tree_of ap f k t \<longleftrightarrow>
     k < af_n_keys ap \<and> af_hdrlen ap \<le> lim f \<and> k < length (root (hdr f))
     \<and> root (hdr f) ! k = tlink t 0
     \<and> threaded f k t 0 0 \<and> distinct (inorder t) \<and> ordered ap f k (inorder t)"

text \<open>The current-pointer record of the handle is readable, has a node for
  key \<open>k\<close> and is none of the positions \<open>xs\<close>.\<close>

definition cursor_ok :: "avl_file_struct \<Rightarrow> afile \<Rightarrow> nat \<Rightarrow> int list \<Rightarrow> bool" where
  "cursor_ok ap f k xs \<longleftrightarrow>
     (case lread f (af_cpr ap) of None \<Rightarrow> False | Some cpr \<Rightarrow> k < length (rec_n cpr))
     \<and> af_cpr ap \<notin> set xs"

section \<open>Harness: consecutive calls of avl\_file\_next\<close>

text \<open>\<open>next_calls n\<close> calls \<open>avl_file_next\<close> \<open>n\<close> times; for every call
  it records the right pointer of the current-pointer record before the call,
  the return value and the data buffer after the call.\<close>

fun next_calls ::
  "nat \<Rightarrow> avl_file_struct \<Rightarrow> afile \<Rightarrow> payload \<Rightarrow> int \<Rightarrow> avl_struct \<Rightarrow> (int \<times> int \<times> payload) list option" where
  "next_calls 0 ap f data k sr0 = Some []"
| "next_calls (Suc n) ap f data k sr0 =
     do {
       cpr \<leftarrow> lread f (af_cpr ap);
       (ret, data', f') \<leftarrow> avl_file_next ap f data k sr0;
       rest \<leftarrow> next_calls n ap f' data' k sr0;
       Some ((get_r (nat k) cpr, ret, data') # rest)
     }"

text \<open>The records of a tree that compare greater than or equal to the data
  \<open>p\<close> under key \<open>k\<close>, in the order of the tree.\<close>

definition ge_records :: "avl_file_struct \<Rightarrow> afile \<Rightarrow> nat \<Rightarrow> payload \<Rightarrow> int tree \<Rightarrow> int list" where
  "ge_records ap f k p t = filter (\<lambda>x. af_cmp ap k (data_at f x) p \<ge> 0) (inorder t)"

section \<open>Specification: the sequential list and the list of empty records\<close>

text \<open>\<open>chain f a xs\<close>: following \<^verbatim>\<open>next\<close> from position \<open>a\<close> visits the
  records at \<open>xs\<close>, in this order, and ends with 0.\<close>

fun chain :: "afile \<Rightarrow> int \<Rightarrow> int list \<Rightarrow> bool" where
  "chain f a [] = (a = 0)"
| "chain f a (x # xs) =
     (a = x \<and> 0 < x \<and> (case lread f x of None \<Rightarrow> False | Some xr \<Rightarrow> chain f (rec_next xr) xs))"

text \<open>
  \<open>seq_ok ap f xs es\<close>: the header is readable; \<open>xs\<close> is the sequential
  list of the file and \<open>es\<close> its list of empty records; the two lists and
  the current-pointer record of the handle are apart from each other; all
  these records lie before the end of the file.
\<close>

definition seq_ok :: "avl_file_struct \<Rightarrow> afile \<Rightarrow> int list \<Rightarrow> int list \<Rightarrow> bool" where
  "seq_ok ap f xs es \<longleftrightarrow>
     af_hdrlen ap \<le> lim f
     \<and> chain f (head_seq (hdr f)) xs \<and> chain f (head_empty (hdr f)) es
     \<and> distinct es \<and> set xs \<inter> set es = {}
     \<and> lread f (af_cpr ap) \<noteq> None \<and> af_cpr ap \<notin> set xs \<and> af_cpr ap \<notin> set es
     \<and> list_all (\<lambda>x. x < lim f) (af_cpr ap # xs @ es)"

section \<open>Harness: consecutive calls of avl\_file\_insert and avl\_file\_readseq\<close>

text \<open>\<open>insert_calls ap f ds yr0\<close> inserts the data \<open>ds\<close> one after the
  other; the result is the file when every call has returned 0.\<close>

fun insert_calls :: "avl_file_struct \<Rightarrow> afile \<Rightarrow> payload list \<Rightarrow> avl_struct \<Rightarrow> afile option" where
  "insert_calls ap f [] yr0 = Some f"
| "insert_calls ap f (d # ds) yr0 =
     do {
       (ret, f') \<leftarrow> avl_file_insert ap f d yr0;
       if ret = 0 then insert_calls ap f' ds yr0 else None
     }"

text \<open>\<open>readseq_calls n\<close> calls \<open>avl_file_readseq\<close> \<open>n\<close> times; for every
  call it records whether the sequential pointer of the current-pointer
  record was 0 before the call, the return value and the data buffer after
  the call.\<close>

fun readseq_calls ::
  "nat \<Rightarrow> avl_file_struct \<Rightarrow> afile \<Rightarrow> payload \<Rightarrow> (bool \<times> int \<times> payload) list option" where
  "readseq_calls 0 ap f data = Some []"
| "readseq_calls (Suc n) ap f data =
     do {
       cpr \<leftarrow> lread f (af_cpr ap);
       (ret, data', f') \<leftarrow> avl_file_readseq ap f data;
       rest \<leftarrow> readseq_calls n ap f' data';
       Some ((rec_prev cpr = 0, ret, data') # rest)
     }"

text \<open>
  Two records agree outside their tree nodes; a file agrees with a later
  one on the header, and outside the tree nodes on every record it has; a
  local copy \<open>r\<close> of the record at \<open>x\<close> is up to date outside its tree
  nodes.
\<close>

definition seqeq :: "avl_struct \<Rightarrow> avl_struct \<Rightarrow> bool" where
  "seqeq r r' \<longleftrightarrow> rec_prev r' = rec_prev r \<and> rec_next r' = rec_next r \<and> rec_b r' = rec_b r"

definition seq_same :: "afile \<Rightarrow> afile \<Rightarrow> bool" where
  "seq_same f f' \<longleftrightarrow>
     lim f \<le> lim f' \<and> hdr f' = hdr f
     \<and> (\<forall>x r. lread f x = Some r \<longrightarrow> (\<exists>r'. lread f' x = Some r' \<and> seqeq r r'))"

definition fresh :: "afile \<Rightarrow> int \<Rightarrow> avl_struct \<Rightarrow> bool" where
  "fresh f x r \<longleftrightarrow> (\<exists>r'. lread f x = Some r' \<and> seqeq r' r)"

definition descend_inv :: "afile \<Rightarrow> int \<Rightarrow> avl_struct \<Rightarrow> int \<Rightarrow> avl_struct \<Rightarrow> bool" where
  "descend_inv f fo fr q qr \<longleftrightarrow> (q = 0 \<or> (0 < q \<and> fresh f q qr)) \<and> (fo = 0 \<or> fresh f fo fr)"

text \<open>A file agrees with a later one on \<^verbatim>\<open>next\<close> and the data of every
  record it has.\<close>

definition next_same :: "afile \<Rightarrow> afile \<Rightarrow> bool" where
  "next_same f f' \<longleftrightarrow>
     lim f \<le> lim f'
     \<and> (\<forall>x r. lread f x = Some r \<longrightarrow>
           (\<exists>r'. lread f' x = Some r' \<and> rec_next r' = rec_next r \<and> rec_b r' = rec_b r))"

section \<open>Specification: the sequential list as a doubly linked list\<close>

text \<open>
  \<open>dseg f p a xs e\<close>: the records at \<open>xs\<close> are linked by \<^verbatim>\<open>next\<close> from
  \<open>a\<close> up to the pointer \<open>e\<close> that leaves the segment, and by
  \<^verbatim>\<open>prev\<close> backwards, \<open>p\<close> being the \<^verbatim>\<open>prev\<close> of the first.
\<close>

fun dseg :: "afile \<Rightarrow> int \<Rightarrow> int \<Rightarrow> int list \<Rightarrow> int \<Rightarrow> bool" where
  "dseg f p a [] e = (a = e)"
| "dseg f p a (x # xs) e =
     (a = x \<and> 0 < x
      \<and> (case lread f x of None \<Rightarrow> False
          | Some xr \<Rightarrow> rec_prev xr = p \<and> dseg f x (rec_next xr) xs e))"

text \<open>
  \<open>dl_ok ap f xs cs\<close>: the header is readable; \<open>xs\<close> is the sequential
  list, doubly linked, and \<open>cs\<close> the list of current-pointer records;
  neither has a record twice and they have none in common; every record
  lies within the file.
\<close>

definition dl_ok :: "avl_file_struct \<Rightarrow> afile \<Rightarrow> int list \<Rightarrow> int list \<Rightarrow> bool" where
  "dl_ok ap f xs cs \<longleftrightarrow>
     af_hdrlen ap \<le> lim f
     \<and> dseg f 0 (head_seq (hdr f)) xs 0 \<and> distinct xs
     \<and> chain f (head_cpr (hdr f)) cs \<and> distinct cs \<and> set xs \<inter> set cs = {}
     \<and> list_all (\<lambda>x. x + af_reclen ap \<le> lim f) (xs @ cs)"

text \<open>The first of the positions \<open>xs\<close> whose record has the data \<open>d\<close>,
  or 0.\<close>

definition first_with :: "afile \<Rightarrow> payload \<Rightarrow> int list \<Rightarrow> int" where
  "first_with f d xs = (case find (\<lambda>x. data_at f x = d) xs of None \<Rightarrow> 0 | Some y \<Rightarrow> y)"

section \<open>Specification: the search among equal keys\<close>

text \<open>The end of a branch in \<open>path_loop\<close>: the last level remembered is
  taken from the stack.\<close>

definition path_pop ::
  "avl_file_struct \<Rightarrow> afile \<Rightarrow> nat \<Rightarrow> payload \<Rightarrow> (int \<Rightarrow> avl_struct \<Rightarrow> bool)
     \<Rightarrow> int \<Rightarrow> int arr \<Rightarrow> avl_struct arr \<Rightarrow> int arr
     \<Rightarrow> (int \<times> int arr \<times> avl_struct arr) option option" where
  "path_pop ap f k yb ok m pa par stack =
     (if m > 0 then
        (let l = stack (m - 1) in
         if ok (pa l) (par l) then Some (Some (l, pa, par))
         else if l + 1 \<ge> 128 then None
         else path_loop ap f k yb ok (l + 1) (m - 1) (pa(l + 1 := get_r k (par l))) par stack)
      else Some None)"

text \<open>The records of a tree that compare equal to the data \<open>yb\<close>, in the
  order in which the search tests them.\<close>

fun cands :: "avl_file_struct \<Rightarrow> afile \<Rightarrow> nat \<Rightarrow> payload \<Rightarrow> int tree \<Rightarrow> int list" where
  "cands ap f k yb Leaf = []"
| "cands ap f k yb (Node lt x rt) =
     (if af_cmp ap k yb (data_at f x) < 0 then cands ap f k yb lt
      else if af_cmp ap k yb (data_at f x) = 0 then cands ap f k yb lt @ x # cands ap f k yb rt
      else cands ap f k yb rt)"

text \<open>The path from the root of a tree to the record \<open>c\<close>.\<close>

fun path_to :: "int tree \<Rightarrow> int \<Rightarrow> int list" where
  "path_to Leaf c = []"
| "path_to (Node lt x rt) c =
     (if c = x then [x]
      else if c \<in> set_tree lt then x # path_to lt c
      else x # path_to rt c)"

text \<open>The arrays hold the path \<open>p\<close> from level \<open>l\<close> on, with the records
  as they are in the file.\<close>

definition holds_path :: "afile \<Rightarrow> int \<Rightarrow> int arr \<Rightarrow> avl_struct arr \<Rightarrow> int list \<Rightarrow> bool" where
  "holds_path f l pa par p \<longleftrightarrow>
     (\<forall>j<length p. pa (l + int j) = p ! j \<and> lread f (p ! j) = Some (par (l + int j)))"

definition okc :: "afile \<Rightarrow> (int \<Rightarrow> avl_struct \<Rightarrow> bool) \<Rightarrow> int \<Rightarrow> bool" where
  "okc f ok c = (case lread f c of None \<Rightarrow> False | Some r \<Rightarrow> ok c r)"

text \<open>The two outcomes of the search in a subtree entered at level \<open>l\<close>:
  the path to the record found is in the arrays, or the search goes on from
  the stack as it was; the arrays below the level and the stack below its top
  are left alone.\<close>

definition found_post ::
  "afile \<Rightarrow> int \<Rightarrow> int arr \<Rightarrow> avl_struct arr \<Rightarrow> int list
     \<Rightarrow> (int \<times> int arr \<times> avl_struct arr) option option \<Rightarrow> bool" where
  "found_post f l pa par p res \<longleftrightarrow>
     (\<exists>pa' par'. res = Some (Some (l + int (length p) - 1, pa', par'))
        \<and> holds_path f l pa' par' p \<and> (\<forall>i<l. pa' i = pa i \<and> par' i = par i))"

definition none_post ::
  "avl_file_struct \<Rightarrow> afile \<Rightarrow> nat \<Rightarrow> payload \<Rightarrow> (int \<Rightarrow> avl_struct \<Rightarrow> bool)
     \<Rightarrow> int \<Rightarrow> int \<Rightarrow> int arr \<Rightarrow> avl_struct arr \<Rightarrow> int arr
     \<Rightarrow> (int \<times> int arr \<times> avl_struct arr) option option \<Rightarrow> bool" where
  "none_post ap f k yb ok l m pa par stack res \<longleftrightarrow>
     (\<exists>pa' par' stack'. res = path_pop ap f k yb ok m pa' par' stack'
        \<and> (\<forall>i<l. pa' i = pa i \<and> par' i = par i) \<and> (\<forall>j<m. stack' j = stack j))"

section \<open>Harness: consecutive calls of avl\_file\_getnum\<close>

text \<open>\<open>getnum_calls N\<close> calls \<open>avl_file_getnum\<close> \<open>N\<close> times in a row
  and collects the values returned.\<close>

fun getnum_calls :: "nat \<Rightarrow> avl_file_struct \<Rightarrow> afile \<Rightarrow> 64 word list \<times> afile" where
  "getnum_calls 0 ap f = ([], f)"
| "getnum_calls (Suc N) ap f =
     (case avl_file_getnum ap f of
        (v, f') \<Rightarrow> (case getnum_calls N ap f' of (vs, f'') \<Rightarrow> (v # vs, f'')))"

text \<open>A file without records whose counter stands two below the largest
  signed 64-bit value, and a handle for it.\<close>

definition hdr_near_max :: hdr_struct where
  "hdr_near_max = \<lparr>h_n_keys = 0, h_len = 4, h_reclen = 24, n_avl = 0,
     nextnum = 0x7FFFFFFFFFFFFFFE, root = [], head_seq = 0, head_empty = 0, head_cpr = 64\<rparr>"

definition cpr_rec0 :: avl_struct where
  "cpr_rec0 = \<lparr>rec_n = [], rec_prev = 0, rec_next = 0, rec_b = [1, 0, 0, 0]\<rparr>"

definition file_near_max :: afile where
  "file_near_max = \<lparr>hdr = hdr_near_max, recs = [64 \<mapsto> cpr_rec0], lim = 88\<rparr>"

definition cmp_none :: "nat \<Rightarrow> payload \<Rightarrow> payload \<Rightarrow> int" where
  "cmp_none k a b = 0"

definition ap_nokeys :: avl_file_struct where
  "ap_nokeys = \<lparr>af_n_keys = 0, af_len = 4, af_reclen = 24, af_hdrlen = 64,
     af_cmp = cmp_none, af_cpr = 64\<rparr>"

definition env0 :: env where
  "env0 = \<lparr>env_open_ok = True, env_malloc_ok = True, env_pid = [1, 0, 0, 0],
     env_ftest = (\<lambda>_. True)\<rparr>"

section \<open>Example files\<close>

text \<open>A comparison function for every key: the difference of the first
  data bytes.\<close>

definition key_of :: "payload \<Rightarrow> int" where
  "key_of a = (case a of [] \<Rightarrow> 0 | x # _ \<Rightarrow> uint x)"

definition cmp_byte :: "nat \<Rightarrow> payload \<Rightarrow> payload \<Rightarrow> int" where
  "cmp_byte k a b = key_of a - key_of b"

text \<open>
  A file with one key, as three insertions of the keys 10, 20 and 30 leave
  it: the current-pointer record of the handle at 72, the records at 120,
  168 and 216, the record of key 20 at the root.
\<close>

definition ap1 :: avl_file_struct where
  "ap1 = \<lparr>af_n_keys = 1, af_len = 4, af_reclen = 48, af_hdrlen = 72,
     af_cmp = cmp_byte, af_cpr = 72\<rparr>"

definition rec_cpr1 :: avl_struct where
  "rec_cpr1 = \<lparr>rec_n = [cpr_node], rec_prev = 0, rec_next = 0, rec_b = [1, 0, 0, 0]\<rparr>"

definition rec10 :: avl_struct where
  "rec10 = \<lparr>rec_n = [\<lparr>node_b = 0, node_l = 0, node_r = - 168\<rparr>],
     rec_prev = 168, rec_next = 0, rec_b = [10, 0, 0, 0]\<rparr>"

definition rec20 :: avl_struct where
  "rec20 = \<lparr>rec_n = [\<lparr>node_b = 0, node_l = 120, node_r = 216\<rparr>],
     rec_prev = 216, rec_next = 120, rec_b = [20, 0, 0, 0]\<rparr>"

definition rec30 :: avl_struct where
  "rec30 = \<lparr>rec_n = [\<lparr>node_b = 0, node_l = - 168, node_r = 0\<rparr>],
     rec_prev = 0, rec_next = 168, rec_b = [30, 0, 0, 0]\<rparr>"

definition hdr3 :: hdr_struct where
  "hdr3 = \<lparr>h_n_keys = 1, h_len = 4, h_reclen = 48, n_avl = 3, nextnum = 0,
     root = [168], head_seq = 216, head_empty = 0, head_cpr = 72\<rparr>"

definition file3 :: afile where
  "file3 = \<lparr>hdr = hdr3,
     recs = [72 \<mapsto> rec_cpr1, 120 \<mapsto> rec10, 168 \<mapsto> rec20, 216 \<mapsto> rec30],
     lim = 264\<rparr>"

definition tree3 :: "int tree" where
  "tree3 = Node (Node Leaf 120 Leaf) 168 (Node Leaf 216 Leaf)"

text \<open>A file without keys: the current-pointer record of the handle
  \<open>ap_nokeys\<close> at 64 and two records, at 88 and 112, the second inserted
  last.\<close>

definition rec7 :: avl_struct where
  "rec7 = \<lparr>rec_n = [], rec_prev = 112, rec_next = 0, rec_b = [7, 0, 0, 0]\<rparr>"

definition rec9 :: avl_struct where
  "rec9 = \<lparr>rec_n = [], rec_prev = 0, rec_next = 88, rec_b = [9, 0, 0, 0]\<rparr>"

definition hdr_nokeys :: hdr_struct where
  "hdr_nokeys = \<lparr>h_n_keys = 0, h_len = 4, h_reclen = 24, n_avl = 2, nextnum = 0,
     root = [], head_seq = 112, head_empty = 0, head_cpr = 64\<rparr>"

definition file_nokeys :: afile where
  "file_nokeys = \<lparr>hdr = hdr_nokeys, recs = [64 \<mapsto> cpr_rec0, 88 \<mapsto> rec7, 112 \<mapsto> rec9], lim = 136\<rparr>"

section \<open>Properties\<close>

subsection \<open>Reading and writing\<close>

lemma lwrite_hdr_same: "lwrite ap f pos pr = Some f' \<Longrightarrow> hdr f' = hdr f"
  by (auto simp: lwrite_def split: if_splits)

lemma lwrite_lread_same: "lwrite ap f pos pr = Some f' \<Longrightarrow> lread f' pos = Some pr"
  by (auto simp: lwrite_def lread_def split: if_splits)

lemma lwrite_lread_other:
  "lwrite ap f pos pr = Some f' \<Longrightarrow> x \<noteq> pos \<Longrightarrow> lread f x = Some v \<Longrightarrow> lread f' x = Some v"
  by (auto simp: lwrite_def lread_def split: if_splits)

lemma lwrite_lim: "lwrite ap f pos pr = Some f' \<Longrightarrow> lim f \<le> lim f'"
  by (auto simp: lwrite_def split: if_splits)

lemma lwrite_Some: "0 \<le> pos \<Longrightarrow> pos \<le> lim f \<Longrightarrow> \<exists>f'. lwrite ap f pos pr = Some f'"
  by (auto simp: lwrite_def)

lemma lread_SomeD: "lread f x = Some v \<Longrightarrow> x \<le> lim f \<and> recs f x = Some v"
  by (auto simp: lread_def split: if_splits)

subsection \<open>The example files\<close>

lemma cmp_byte_ok: "cmp_ok cmp_byte k"
  by (auto simp: cmp_ok_def cmp_byte_def)

lemma file3_lread:
  "lread file3 72 = Some rec_cpr1" "lread file3 120 = Some rec10"
  "lread file3 168 = Some rec20" "lread file3 216 = Some rec30"
  by (simp_all add: lread_def file3_def)

lemma file3_data:
  "data_at file3 120 = [10, 0, 0, 0]" "data_at file3 168 = [20, 0, 0, 0]"
  "data_at file3 216 = [30, 0, 0, 0]"
  by (simp_all add: data_at_def file3_lread rec10_def rec20_def rec30_def)

lemma file3_tree: "tree_of ap1 file3 0 tree3"
  by (simp add: tree_of_def tree3_def file3_lread ordered_def file3_data cmp_byte_def key_of_def)
     (simp add: ap1_def file3_def hdr3_def rec10_def rec20_def rec30_def cmp_byte_def key_of_def)

lemma file3_cursor: "cursor_ok ap1 file3 0 (inorder tree3)"
  by (simp add: cursor_ok_def ap1_def file3_lread rec_cpr1_def tree3_def)

lemma file3_ge: "ge_records ap1 file3 0 [15, 0, 0, 0] tree3 = [168, 216]"
  by (simp add: ge_records_def tree3_def file3_data ap1_def cmp_byte_def key_of_def)

subsection \<open>avl\_file\_getnum\<close>

lemma close_loop_hdr:
  assumes "close_loop ap f cp cpr sp = Some f'" shows "hdr f' = hdr f"
proof (rule close_loop.raw_induct[where P = "\<lambda>ap f cp cpr sp f'. hdr f' = hdr f", OF _ assms])
  fix cl ap f cp cpr sp f'
  assume IH: "\<And>ap f cp cpr sp f'. cl ap f cp cpr sp = Some f' \<Longrightarrow> hdr f' = hdr f"
    and b: "(if 0 < sp
      then lread f sp \<bind>
           (\<lambda>spr. if rec_next spr = cp
                  then lwrite ap f sp (spr\<lparr>rec_next := rec_next cpr\<rparr>)
                  else cl ap f cp cpr (rec_next spr))
      else Some f) = Some f'"
  from b show "hdr f' = hdr f"
    by (auto split: if_splits bind_splits dest: lwrite_hdr_same IH)
qed

lemma close_nextnum:
  "avl_file_close ap f = Some f' \<Longrightarrow> nextnum (hdr f') = nextnum (hdr f)"
  by (auto simp: avl_file_close_def lread_hdr_def lwrite_hdr_def Let_def
      split: if_splits bind_splits dest!: lwrite_hdr_same close_loop_hdr)

lemma open_nextnum:
  "avl_file_open e f len nk cmp reclen hdrlen cpr0 = Some (r, f') \<Longrightarrow> lim f \<noteq> 0
     \<Longrightarrow> nextnum (hdr f') = nextnum (hdr f)"
  by (auto simp: avl_file_open_def lread_hdr_def lwrite_hdr_def Let_def
      split: if_splits bind_splits prod.splits dest!: lwrite_hdr_same)

lemma getnum_calls_nextnum:
  "nextnum (hdr (snd (getnum_calls N ap f))) = nextnum (hdr f) + word_of_nat N"
proof (induction N arbitrary: f)
  case 0 show ?case by simp
next
  case (Suc N)
  show ?case using Suc[of "snd (avl_file_getnum ap f)"]
    by (auto simp: avl_file_getnum_def Let_def add.assoc split: prod.splits)
qed

lemma getnum_calls_vals:
  "fst (getnum_calls N ap f) = map (\<lambda>i. nextnum (hdr f) + word_of_nat i) [1..<Suc N]"
proof (induction N arbitrary: f)
  case 0 show ?case by simp
next
  case (Suc N)
  have "map (\<lambda>i. nextnum (hdr f) + word_of_nat i) [1..<Suc (Suc N)]
      = (nextnum (hdr f) + 1) # map (\<lambda>i. nextnum (hdr f) + 1 + word_of_nat i) [1..<Suc N]"
    by (simp add: upt_conv_Cons map_Suc_upt[symmetric] del: upt_Suc)
  with Suc[of "snd (avl_file_getnum ap f)"] show ?case
    by (auto simp: avl_file_getnum_def Let_def split: prod.splits)
qed

lemma sint_add_nat:
  assumes "sint (w::64 word) + int i < 2 ^ 63"
  shows "sint (w + word_of_nat i) = sint w + int i"
proof -
  have lo: "- (2 ^ 63) \<le> sint w + int i" using sint_ge[of w] by simp
  have e: "w + word_of_nat i = word_of_int (sint w + int i)" by simp
  have "sint (word_of_int (sint w + int i) :: 64 word) = signed_take_bit 63 (sint w + int i)"
    by (simp only: sint_sbintrunc') simp
  also have "\<dots> = sint w + int i"
    using lo assms by (intro signed_take_bit_int_eq_self) auto
  finally show ?thesis unfolding e .
qed

text \<open>
  Claim C8, as amended. As long as the signed 64-bit counter does not overflow
  (\<open>NextNumber + N < 2^63\<close>), \<open>N\<close> consecutive calls of
  \<open>avl_file_getnum\<close> return the \<open>N\<close> consecutive values
  \<open>NextNumber + 1, \<dots>, NextNumber + N\<close>, which are strictly increasing,
  and leave the counter at \<open>NextNumber + N\<close>; closing the file and opening
  it again leave the counter of the header unchanged, so the sequence goes on.
\<close>

theorem getnum_consecutive:
  assumes "sint (nextnum (hdr f)) + int N < 2 ^ 63"
  shows "map sint (fst (getnum_calls N ap f)) = map (\<lambda>i. sint (nextnum (hdr f)) + int i) [1..<Suc N]
    \<and> sorted_wrt (<) (map sint (fst (getnum_calls N ap f)))
    \<and> nextnum (hdr (snd (getnum_calls N ap f))) = nextnum (hdr f) + word_of_nat N
    \<and> (\<forall>f'. avl_file_close ap f = Some f' \<longrightarrow> nextnum (hdr f') = nextnum (hdr f))
    \<and> (\<forall>e len nk cmp reclen hdrlen cpr0 r f'. lim f \<noteq> 0
          \<longrightarrow> avl_file_open e f len nk cmp reclen hdrlen cpr0 = Some (r, f')
          \<longrightarrow> nextnum (hdr f') = nextnum (hdr f))"
proof -
  have a: "map sint (fst (getnum_calls N ap f)) = map (\<lambda>i. sint (nextnum (hdr f)) + int i) [1..<Suc N]"
    unfolding getnum_calls_vals using assms
    by (auto simp del: upt_Suc simp: sint_add_nat)
  have b: "sorted_wrt (<) (map (\<lambda>i. sint (nextnum (hdr f)) + int i) [1..<Suc N])"
    by (simp add: sorted_wrt_map del: upt_Suc)
  show ?thesis using a b getnum_calls_nextnum close_nextnum open_nextnum by auto 
qed


lemma close_near_max: "avl_file_close ap_nokeys file_near_max \<noteq> None"
  by code_simp

lemma open_near_max:
  "avl_file_open env0 file_near_max 4 0 cmp_none 24 64 cpr_rec0 \<noteq> None"
  by (simp add: avl_file_open_def open_loop.simps env0_def file_near_max_def hdr_near_max_def
      cpr_rec0_def lread_def lwrite_def lwrite_hdr_def Let_def)

theorem getnum_consecutive_witness:
  "sint (nextnum (hdr file_near_max)) + int 1 < 2 ^ 63
   \<and> map sint (fst (getnum_calls 1 ap_nokeys file_near_max)) = [9223372036854775807]
   \<and> map_option (\<lambda>f'. nextnum (hdr f')) (avl_file_close ap_nokeys file_near_max)
       = Some 0x7FFFFFFFFFFFFFFE
   \<and> map_option (\<lambda>p. nextnum (hdr (snd p)))
         (avl_file_open env0 file_near_max 4 0 cmp_none 24 64 cpr_rec0)
       = Some 0x7FFFFFFFFFFFFFFE"
proof -
  have h: "sint (nextnum (hdr file_near_max)) + int 1 < 2 ^ 63"
    by (simp add: file_near_max_def hdr_near_max_def)
  have n: "nextnum (hdr file_near_max) = 0x7FFFFFFFFFFFFFFE" "lim file_near_max \<noteq> 0"
    by (simp_all add: file_near_max_def hdr_near_max_def)
  obtain f1 where c: "avl_file_close ap_nokeys file_near_max = Some f1"
    using close_near_max by blast
  obtain r f2 where ob: "avl_file_open env0 file_near_max 4 0 cmp_none 24 64 cpr_rec0 = Some (r, f2)"
    using open_near_max by fastforce
  have s: "sint (0x7FFFFFFFFFFFFFFE :: 64 word) = 9223372036854775806" by simp
  from getnum_consecutive[OF h, of ap_nokeys] c ob n h s show ?thesis
    by simp
qed

text \<open>
  The claim as stated (for every \<open>N\<close>, on every file) fails when the counter
  reaches the largest signed 64-bit value: two calls starting two below it
  return \<open>2^63 - 1\<close> and then \<open>- 2^63\<close>.
\<close>

theorem getnum_overflow_counterexample:
  "\<not> sorted_wrt (<) (map sint (fst (getnum_calls 2 ap_nokeys file_near_max)))"
  by (simp add: numeral_2_eq_2 avl_file_getnum_def file_near_max_def hdr_near_max_def Let_def)

subsection \<open>Threaded trees: descent and neighbours\<close>

lemma threaded_pos:
  "threaded f k t lo hi \<Longrightarrow> x \<in> set (inorder t) \<Longrightarrow> 0 < x \<and> (\<exists>xr. lread f x = Some xr \<and> k < length (rec_n xr))"
  by (induction t arbitrary: lo hi) (auto split: option.splits)

lemma threaded_frame:
  "threaded f k t lo hi \<Longrightarrow> (\<And>x. x \<in> set (inorder t) \<Longrightarrow> lread f' x = lread f x)
     \<Longrightarrow> threaded f' k t lo hi"
  by (induction t arbitrary: lo hi) (auto split: option.splits)

lemma threaded_lwrite:
  assumes "threaded f k t lo hi" "lwrite ap f c r = Some f'" "c \<notin> set (inorder t)"
  shows "threaded f' k t lo hi"
proof (rule threaded_frame[OF assms(1)])
  fix x assume "x \<in> set (inorder t)"
  then obtain xr where "lread f x = Some xr" "x \<noteq> c"
    using threaded_pos[OF assms(1)] assms(3) by blast
  then show "lread f' x = lread f x"
    using lwrite_lread_other[OF assms(2)] by simp
qed

lemma tlink_Node: "t \<noteq> Leaf \<Longrightarrow> tlink t z = value t"
  by (cases t) auto

lemma leftmost_threaded:
  "threaded f k t lo hi \<Longrightarrow> 0 \<le> lo \<Longrightarrow> t \<noteq> Leaf \<Longrightarrow> lread f (tlink t z) = Some xr
    \<Longrightarrow> \<exists>sr. leftmost f k (tlink t z) xr = Some (hd (inorder t), sr) \<and> lread f (hd (inorder t)) = Some sr"
proof (induction t arbitrary: lo hi z xr)
  case Leaf then show ?case by simp
next
  case (Node lt x rt)
  show ?case
  proof (cases lt)
    case Leaf
    with Node.prems show ?thesis
      by (subst leftmost.simps) auto
  next
    case (Node a b c)
    with Node.prems obtain lr where lr: "lread f (tlink lt lo) = Some lr" "tlink lt lo = b" "0 < b"
      by (auto split: option.splits)
    from Node.IH(1)[of lo x, OF _ Node.prems(2) _ lr(1)] Node Node.prems
    obtain sr where "leftmost f k (tlink lt lo) lr = Some (hd (inorder lt), sr)"
      "lread f (hd (inorder lt)) = Some sr" by auto
    with Node.prems Node lr show ?thesis
      by (subst leftmost.simps) (auto simp: hd_append split: option.splits)
  qed
qed

lemma rightmost_threaded:
  "threaded f k t lo hi \<Longrightarrow> 0 \<le> hi \<Longrightarrow> t \<noteq> Leaf \<Longrightarrow> lread f (tlink t z) = Some xr
    \<Longrightarrow> \<exists>sr. rightmost f k (tlink t z) xr = Some (last (inorder t), sr) \<and> lread f (last (inorder t)) = Some sr"
proof (induction t arbitrary: lo hi z xr)
  case Leaf then show ?case by simp
next
  case (Node lt x rt)
  show ?case
  proof (cases rt)
    case Leaf
    with Node.prems show ?thesis
      by (subst rightmost.simps) auto
  next
    case (Node a b c)
    with Node.prems obtain lr where lr: "lread f (tlink rt hi) = Some lr" "tlink rt hi = b" "0 < b"
      by (auto split: option.splits)
    from Node.IH(2)[of x hi, OF _ Node.prems(2) _ lr(1)] Node Node.prems
    obtain sr where "rightmost f k (tlink rt hi) lr = Some (last (inorder rt), sr)"
      "lread f (last (inorder rt)) = Some sr" by auto
    with Node.prems Node lr show ?thesis
      by (subst rightmost.simps) (auto simp: last_append split: option.splits)
  qed
qed

lemma distinct_split_unique:
  "distinct (as @ x # bs) \<Longrightarrow> as @ x # bs = cs @ x # ds \<Longrightarrow> as = cs \<and> bs = ds"
proof -
  assume d: "distinct (as @ x # bs)" and e: "as @ x # bs = cs @ x # ds"
  from d have "x \<notin> set as" "x \<notin> set bs" by auto
  from append_Cons_eq_iff[OF this] e show ?thesis by blast
qed

lemma neighbours_threaded:
  "threaded f k t lo hi \<Longrightarrow> 0 \<le> lo \<Longrightarrow> 0 \<le> hi \<Longrightarrow> distinct (inorder t)
    \<Longrightarrow> inorder t = pre @ x # post
    \<Longrightarrow> \<exists>xr sr sr'. lread f x = Some xr
          \<and> tree_next f k xr sr0 = Some (hd (post @ [hi]), sr)
          \<and> tree_prev f k xr sr0 = Some (last (lo # pre), sr')"
proof (induction t arbitrary: lo hi pre post)
  case Leaf then show ?case by simp
next
  case (Node lt y rt)
  from Node.prems(1) obtain yr where yr: "lread f y = Some yr" "0 < y"
    "get_l k yr = tlink lt lo" "get_r k yr = tlink rt hi"
    "threaded f k lt lo y" "threaded f k rt y hi"
    by (auto split: option.splits)
  have d: "distinct (inorder lt)" "distinct (inorder rt)" using Node.prems(4) by auto
  consider (root) "x = y" | (left) "x \<noteq> y" "x \<in> set (inorder lt)" | (right) "x \<noteq> y" "x \<in> set (inorder rt)"
  proof -
    have "x \<in> set (inorder (Node lt y rt))" unfolding Node.prems(5) by simp
    then show ?thesis using that by auto
  qed
  then show ?case
  proof cases
    case root
    have "distinct (inorder lt @ y # inorder rt)" using Node.prems(4) by simp
    moreover have "inorder lt @ y # inorder rt = pre @ y # post"
      using Node.prems(5) root by simp
    ultimately
    have "inorder lt = pre \<and> inorder rt = post" by (rule distinct_split_unique)
    then have pp: "pre = inorder lt" "post = inorder rt" by simp_all
    have nx: "\<exists>sr. tree_next f k yr sr0 = Some (hd (post @ [hi]), sr)"
    proof (cases rt)
      case Leaf with yr Node.prems pp show ?thesis by (auto simp: tree_next_def)
    next
      case (Node a b c)
      then obtain br where br: "lread f (tlink rt hi) = Some br" "0 < tlink rt hi"
        using yr(6) by (auto split: option.splits)
      from leftmost_threaded[OF yr(6) _ _ br(1)] yr(2) Node
      obtain sr where "leftmost f k (tlink rt hi) br = Some (hd (inorder rt), sr)" by auto
      with br yr pp Node show ?thesis by (auto simp: tree_next_def hd_append)
    qed
    have pv: "\<exists>sr. tree_prev f k yr sr0 = Some (last (lo # pre), sr)"
    proof (cases lt)
      case Leaf with yr Node.prems pp show ?thesis by (auto simp: tree_prev_def)
    next
      case (Node a b c)
      then obtain br where br: "lread f (tlink lt lo) = Some br" "0 < tlink lt lo"
        using yr(5) by (auto split: option.splits)
      from rightmost_threaded[OF yr(5) _ _ br(1)] yr(2) Node
      obtain sr where "rightmost f k (tlink lt lo) br = Some (last (inorder lt), sr)" by auto
      with br yr pp Node show ?thesis by (auto simp: tree_prev_def)
    qed
    from nx pv yr root show ?thesis by auto
  next
    case left
    then obtain p1 q1 where s: "inorder lt = p1 @ x # q1" by (meson split_list)
    have "distinct (p1 @ x # (q1 @ y # inorder rt))" using Node.prems(4) s by simp
    moreover have "p1 @ x # (q1 @ y # inorder rt) = pre @ x # post"
      using Node.prems(5) s by simp
    ultimately
    have "p1 = pre \<and> q1 @ y # inorder rt = post" by (rule distinct_split_unique)
    then have pp: "pre = p1" "post = q1 @ y # inorder rt" by simp_all
    from Node.IH(1)[OF yr(5) Node.prems(2) _ d(1) s] yr(2)
    show ?thesis unfolding pp by (auto simp: hd_append)
  next
    case right
    then obtain p1 q1 where s: "inorder rt = p1 @ x # q1" by (meson split_list)
    have "distinct ((inorder lt @ y # p1) @ x # q1)" using Node.prems(4) s by simp
    moreover have "(inorder lt @ y # p1) @ x # q1 = pre @ x # post"
      using Node.prems(5) s by simp
    ultimately
    have "inorder lt @ y # p1 = pre \<and> q1 = post" by (rule distinct_split_unique)
    then have pp: "pre = inorder lt @ y # p1" "post = q1" by simp_all
    from Node.IH(2)[OF yr(6) _ Node.prems(3) d(2) s] yr(2)
    show ?thesis unfolding pp by (auto simp: last_append)
  qed
qed


lemma ordered_append:
  "ordered ap f k (xs @ ys) \<longleftrightarrow> ordered ap f k xs \<and> ordered ap f k ys
     \<and> (\<forall>x\<in>set xs. \<forall>y\<in>set ys. af_cmp ap k (data_at f x) (data_at f y) \<le> 0)"
  by (simp add: ordered_def sorted_wrt_append)

lemma ordered_Cons:
  "ordered ap f k (x # ys) \<longleftrightarrow> ordered ap f k ys
     \<and> (\<forall>y\<in>set ys. af_cmp ap k (data_at f x) (data_at f y) \<le> 0)"
  by (auto simp: ordered_def)

lemma cmp_gt_trans:
  "cmp_ok cmp k \<Longrightarrow> cmp k a b \<le> 0 \<Longrightarrow> cmp k p b > 0 \<Longrightarrow> cmp k p a > 0"
  unfolding cmp_ok_def
  by (metis less_le_not_le linorder_not_le)

lemma hd_dropWhile_stop:
  "\<not> P x \<Longrightarrow> hd (dropWhile P (as @ x # bs) @ [hi]) = hd (dropWhile P as @ [x])"
  by (induction as) auto

lemma dropWhile_all: "\<forall>y\<in>set as. P y \<Longrightarrow> P x \<Longrightarrow> dropWhile P (as @ x # bs) = dropWhile P bs"
  by (induction as) auto

lemma startge_loop_threaded:
  "threaded f k t lo hi \<Longrightarrow> 0 \<le> lo \<Longrightarrow> 0 \<le> hi \<Longrightarrow> t \<noteq> Leaf
    \<Longrightarrow> ordered ap f k (inorder t) \<Longrightarrow> cmp_ok (af_cmp ap) k
    \<Longrightarrow> startge_loop ap f k p (tlink t z)
        = Some (hd (dropWhile (\<lambda>x. af_cmp ap k p (data_at f x) > 0) (inorder t) @ [hi]))"
proof (induction t arbitrary: lo hi z)
  case Leaf then show ?case by simp
next
  case (Node lt x rt)
  let ?P = "\<lambda>x. af_cmp ap k p (data_at f x) > 0"
  from Node.prems(1) obtain xr where xr: "lread f x = Some xr" "0 < x"
    "get_l k xr = tlink lt lo" "get_r k xr = tlink rt hi"
    "threaded f k lt lo x" "threaded f k rt x hi"
    by (auto split: option.splits)
  have dx: "data_at f x = rec_b xr" using xr(1) by (simp add: data_at_def)
  have ol: "ordered ap f k (inorder lt)" and orr: "ordered ap f k (inorder rt)"
    and lx: "\<forall>y\<in>set (inorder lt). af_cmp ap k (data_at f y) (data_at f x) \<le> 0"
    using Node.prems(5) by (auto simp: ordered_append ordered_Cons)
  show ?case
  proof (cases "af_cmp ap k p (rec_b xr) \<le> 0")
    case True
    then have nP: "\<not> ?P x" using dx by simp
    have e: "hd (dropWhile ?P (inorder (Node lt x rt)) @ [hi]) = hd (dropWhile ?P (inorder lt) @ [x])"
      using hd_dropWhile_stop[of ?P x, OF nP] by simp
    show ?thesis
    proof (cases lt)
      case Leaf
      with True xr Node.prems(2) show ?thesis unfolding e
        by (subst startge_loop.simps) simp
    next
      case (Node a b c)
      from Node.IH(1)[OF xr(5) Node.prems(2) _ _ ol Node.prems(6), of lo] xr(2) Node
      have "startge_loop ap f k p (tlink lt lo) = Some (hd (dropWhile ?P (inorder lt) @ [x]))"
        by simp
      moreover have "0 < tlink lt lo" using xr(5) Node by auto
      ultimately show ?thesis using True xr unfolding e
        by (subst startge_loop.simps) simp
    qed
  next
    case False
    then have Px: "?P x" using dx by simp
    have "\<forall>y\<in>set (inorder lt). ?P y"
      using lx Px cmp_gt_trans[OF Node.prems(6)] by blast
    then have e: "dropWhile ?P (inorder (Node lt x rt)) = dropWhile ?P (inorder rt)"
      using dropWhile_all[of "inorder lt" ?P x] Px by simp
    show ?thesis
    proof (cases rt)
      case Leaf
      with False xr Node.prems(3) show ?thesis unfolding e
        by (subst startge_loop.simps) simp
    next
      case (Node a b c)
      from Node.IH(2)[OF xr(6) _ Node.prems(3) _ orr Node.prems(6), of hi] xr(2) Node
      have "startge_loop ap f k p (tlink rt hi) = Some (hd (dropWhile ?P (inorder rt) @ [hi]))"
        by simp
      moreover have "0 < tlink rt hi" using xr(6) Node by auto
      ultimately show ?thesis using False xr unfolding e
        by (subst startge_loop.simps) simp
    qed
  qed
qed


lemma data_at_lwrite:
  "lwrite ap f c r = Some f' \<Longrightarrow> x \<noteq> c \<Longrightarrow> lread f x = Some xr \<Longrightarrow> data_at f' x = data_at f x"
  by (simp add: data_at_def lwrite_lread_other)

lemma set_r_get[simp]:
  "k < length (rec_n r) \<Longrightarrow> get_r k (set_r k v r) = v"
  "k < length (rec_n r) \<Longrightarrow> get_l k (set_r k v r) = get_l k r"
  "length (rec_n (set_r k v r)) = length (rec_n r)"
  "rec_b (set_r k v r) = rec_b r" "rec_prev (set_r k v r) = rec_prev r" "rec_next (set_r k v r) = rec_next r"
  by (simp_all add: set_r_def)

lemma set_l_get[simp]:
  "k < length (rec_n r) \<Longrightarrow> get_l k (set_l k v r) = v"
  "k < length (rec_n r) \<Longrightarrow> get_r k (set_l k v r) = get_r k r"
  "length (rec_n (set_l k v r)) = length (rec_n r)"
  "rec_b (set_l k v r) = rec_b r" "rec_prev (set_l k v r) = rec_prev r" "rec_next (set_l k v r) = rec_next r"
  by (simp_all add: set_l_def)

lemma next_calls_run:
  "threaded f k t 0 0 \<Longrightarrow> distinct (inorder t) \<Longrightarrow> k < af_n_keys ap \<Longrightarrow> inorder t = pre @ zs
    \<Longrightarrow> lread f (af_cpr ap) = Some cpr \<Longrightarrow> k < length (rec_n cpr) \<Longrightarrow> get_r k cpr = hd (zs @ [0])
    \<Longrightarrow> af_cpr ap \<notin> set (inorder t)
    \<Longrightarrow> next_calls (Suc (length zs)) ap f d (int k) sr0
        = Some (map (\<lambda>x. (x, 0, data_at f x)) zs @ [(0, - 1, last (d # map (data_at f) zs))])"
proof (induction zs arbitrary: f pre cpr d)
  case Nil
  then show ?case by (simp add: avl_file_next_def)
next
  case (Cons z zs)
  from neighbours_threaded[OF Cons.prems(1) _ _ Cons.prems(2), of pre z zs sr0] Cons.prems(4)
  obtain zr sr where zr: "lread f z = Some zr" "tree_next f k zr sr0 = Some (hd (zs @ [0]), sr)"
    by auto
  have zpos: "0 < z" using threaded_pos[OF Cons.prems(1), of z] Cons.prems(4) by simp
  have cb: "0 \<le> af_cpr ap" "af_cpr ap \<le> lim f"
    using Cons.prems(5) by (auto simp: lread_def split: if_splits)
  then obtain f' where f': "lwrite ap f (af_cpr ap) (set_r k (hd (zs @ [0])) cpr) = Some f'"
    using lwrite_Some by blast
  have nx: "avl_file_next ap f d (int k) sr0 = Some (0, rec_b zr, f')"
    using Cons.prems zr zpos f' by (simp add: avl_file_next_def)
  have th: "threaded f' k t 0 0" using threaded_lwrite[OF Cons.prems(1) f' Cons.prems(8)] .
  have da: "\<And>x. x \<in> set (inorder t) \<Longrightarrow> data_at f' x = data_at f x"
    using threaded_pos[OF Cons.prems(1)] Cons.prems(8) data_at_lwrite[OF f'] by metis
  have IH: "next_calls (Suc (length zs)) ap f' (rec_b zr) (int k) sr0
        = Some (map (\<lambda>x. (x, 0, data_at f' x)) zs @ [(0, - 1, last (rec_b zr # map (data_at f') zs))])"
    using Cons.IH[OF th Cons.prems(2,3), of "pre @ [z]" "set_r k (hd (zs @ [0])) cpr" "rec_b zr"]
      Cons.prems lwrite_lread_same[OF f'] by simp
  have m: "map (\<lambda>x. (x, 0::int, data_at f' x)) zs = map (\<lambda>x. (x, 0, data_at f x)) zs"
    "map (data_at f') zs = map (data_at f) zs"
    using da Cons.prems(4) by auto
  have dz: "data_at f z = rec_b zr" using zr by (simp add: data_at_def)
  have step: "next_calls (Suc (Suc (length zs))) ap f d (int k) sr0
      = do { rest \<leftarrow> next_calls (Suc (length zs)) ap f' (rec_b zr) (int k) sr0;
             Some ((z, 0, rec_b zr) # rest) }"
    using nx Cons.prems(5,7) by (subst next_calls.simps(2)) simp
  show ?case
    using step IH m dz by (simp del: next_calls.simps)
qed


lemma filter_ge_dropWhile:
  "cmp_ok (af_cmp ap) k \<Longrightarrow> ordered ap f k xs
    \<Longrightarrow> filter (\<lambda>x. af_cmp ap k (data_at f x) p \<ge> 0) xs
        = dropWhile (\<lambda>x. af_cmp ap k p (data_at f x) > 0) xs"
proof (induction xs)
  case Nil show ?case by simp
next
  case (Cons x xs)
  have eqv: "\<And>y. (af_cmp ap k (data_at f y) p \<ge> 0) = (\<not> af_cmp ap k p (data_at f y) > 0)"
    using Cons.prems(1) unfolding cmp_ok_def by (metis linorder_not_le)
  show ?case
  proof (cases "af_cmp ap k p (data_at f x) > 0")
    case True
    with Cons show ?thesis by (simp add: eqv ordered_Cons)
  next
    case False
    have "\<forall>y\<in>set xs. \<not> af_cmp ap k p (data_at f y) > 0"
      using False Cons.prems cmp_gt_trans[OF Cons.prems(1)] unfolding ordered_Cons by blast
    then have "filter (\<lambda>x. af_cmp ap k (data_at f x) p \<ge> 0) xs = xs"
      by (simp add: eqv)
    with False show ?thesis by (simp add: eqv)
  qed
qed

lemma ordered_filter: "ordered ap f k xs \<Longrightarrow> ordered ap f k (filter P xs)"
  unfolding ordered_def by (rule sorted_wrt_filter)

subsection \<open>avl\_file\_startge and avl\_file\_next\<close>

text \<open>
  Claim C4. For a tree of key \<open>k\<close> and data \<open>p\<close> such that some record
  of the tree compares greater than or equal to \<open>p\<close>, \<open>avl_file_startge\<close>
  returns 0 with the first such record in the buffer; the calls of
  \<open>avl_file_next\<close> that follow return the remaining records in ascending
  order, the right pointer of the current-pointer record being the record
  returned next before each call, and the call that finds it 0 returns -1.
\<close>

theorem startge_next_in_order:
  assumes "tree_of ap f k t" and "cmp_ok (af_cmp ap) k" and "cursor_ok ap f k (inorder t)"
    and "\<exists>x\<in>set (inorder t). af_cmp ap k (data_at f x) p \<ge> 0"
  shows "\<exists>f1. avl_file_startge ap f p (int k) sr0
            = Some (0, data_at f (hd (ge_records ap f k p t)), f1)
      \<and> next_calls (length (ge_records ap f k p t)) ap f1
            (data_at f (hd (ge_records ap f k p t))) (int k) sr0
          = Some (map (\<lambda>x. (x, 0, data_at f x)) (tl (ge_records ap f k p t))
                  @ [(0, - 1, data_at f (last (ge_records ap f k p t)))])
      \<and> ordered ap f k (ge_records ap f k p t)"
proof -
  let ?P = "\<lambda>x. af_cmp ap k p (data_at f x) > 0"
  let ?ys = "ge_records ap f k p t"
  from assms(1) have k: "k < af_n_keys ap" and hl: "af_hdrlen ap \<le> lim f"
    and rt: "root (hdr f) ! k = tlink t 0" and th: "threaded f k t 0 0"
    and di: "distinct (inorder t)" and ord: "ordered ap f k (inorder t)"
    by (auto simp: tree_of_def)
  from assms(3) obtain cpr where cpr: "lread f (af_cpr ap) = Some cpr" "k < length (rec_n cpr)"
    and cn: "af_cpr ap \<notin> set (inorder t)"
    by (auto simp: cursor_ok_def split: option.splits)
  have ys: "?ys = dropWhile ?P (inorder t)"
    unfolding ge_records_def by (rule filter_ge_dropWhile[OF assms(2) ord])
  have ne: "?ys \<noteq> []" using assms(4) by (auto simp: ge_records_def filter_empty_conv)
  then obtain y zs where yz: "?ys = y # zs" by (cases ?ys) auto
  have tne: "t \<noteq> Leaf" using assms(4) by auto
  obtain pre where pre: "inorder t = pre @ y # zs"
    using yz ys by (metis takeWhile_dropWhile_id)
  have yin: "y \<in> set (inorder t)" using pre by simp
  from threaded_pos[OF th yin] obtain yr where yr: "0 < y" "lread f y = Some yr" by auto
  have dl: "startge_loop ap f k p (root (hdr f) ! k) = Some y"
    using startge_loop_threaded[OF th _ _ tne ord assms(2), of p 0] rt ys[symmetric] yz by simp
  from neighbours_threaded[OF th _ _ di pre, of sr0] yr
  obtain sr sr' where nb: "tree_next f k yr sr0 = Some (hd (zs @ [0]), sr)"
      "tree_prev f k yr sr0 = Some (last (0 # pre), sr')" by auto
  from neighbours_threaded[OF th _ _ di pre, of sr'] yr
  obtain sr2 where nb2: "tree_next f k yr sr' = Some (hd (zs @ [0]), sr2)" by auto
  let ?c1 = "set_r k (hd (zs @ [0])) (set_l k (last (0 # pre)) cpr)"
  have cb: "0 \<le> af_cpr ap" "af_cpr ap \<le> lim f"
    using cpr(1) by (auto simp: lread_def split: if_splits)
  then obtain f1 where f1: "lwrite ap f (af_cpr ap) ?c1 = Some f1"
    using lwrite_Some by blast
  have dy: "data_at f y = rec_b yr" using yr by (simp add: data_at_def)
  have sg: "avl_file_startge ap f p (int k) sr0 = Some (0, data_at f y, f1)"
    using k hl dl cpr yr nb nb2 f1 dy
    by (simp add: avl_file_startge_def lread_hdr_def start_finish_def)
  have th1: "threaded f1 k t 0 0" by (rule threaded_lwrite[OF th f1 cn])
  have da: "\<And>x. x \<in> set (inorder t) \<Longrightarrow> data_at f1 x = data_at f x"
    using threaded_pos[OF th] cn data_at_lwrite[OF f1] by metis
  have run: "next_calls (Suc (length zs)) ap f1 (data_at f y) (int k) sr0
        = Some (map (\<lambda>x. (x, 0, data_at f1 x)) zs @ [(0, - 1, last (data_at f y # map (data_at f1) zs))])"
    using next_calls_run[OF th1 di k, of "pre @ [y]" zs ?c1 "data_at f y" sr0]
      pre cpr lwrite_lread_same[OF f1] cn by simp
  have m: "map (\<lambda>x. (x, 0::int, data_at f1 x)) zs = map (\<lambda>x. (x, 0, data_at f x)) zs"
    "map (data_at f1) zs = map (data_at f) zs"
    using da pre by auto
  have l: "last (data_at f y # map (data_at f) zs) = data_at f (last (y # zs))"
    by (simp add: last_map)
  have "ordered ap f k ?ys" unfolding ge_records_def by (rule ordered_filter[OF ord])
  with sg run show ?thesis unfolding yz m l by (simp del: next_calls.simps)
qed

theorem startge_next_in_order_witness:
  "tree_of ap1 file3 0 tree3 \<and> cmp_ok (af_cmp ap1) 0 \<and> cursor_ok ap1 file3 0 (inorder tree3)
   \<and> af_cmp ap1 0 (data_at file3 168) [15, 0, 0, 0] \<ge> 0
   \<and> (\<exists>f1. avl_file_startge ap1 file3 [15, 0, 0, 0] 0 rec_cpr1 = Some (0, [20, 0, 0, 0], f1)
        \<and> next_calls 2 ap1 f1 [20, 0, 0, 0] 0 rec_cpr1
            = Some [(216, 0, [30, 0, 0, 0]), (0, - 1, [30, 0, 0, 0])])"
proof -
  have c: "cmp_ok (af_cmp ap1) 0" by (simp add: ap1_def cmp_byte_ok)
  have g: "af_cmp ap1 0 (data_at file3 168) [15, 0, 0, 0] \<ge> 0"
    by (simp add: file3_data ap1_def cmp_byte_def key_of_def)
  then have e: "\<exists>x\<in>set (inorder tree3). af_cmp ap1 0 (data_at file3 x) [15, 0, 0, 0] \<ge> 0"
    by (simp add: tree3_def)
  from startge_next_in_order[OF file3_tree c file3_cursor e, of rec_cpr1]
  show ?thesis using file3_tree c file3_cursor g
    by (auto simp add: file3_ge file3_data numeral_2_eq_2 simp del: next_calls.simps)
qed

subsection \<open>avl\_file\_find\<close>

lemma file3_startge_eval:
  "\<exists>f1. avl_file_startge ap1 file3 [15, 0, 0, 0] 0 rec_cpr1 = Some (0, [20, 0, 0, 0], f1)"
  by (simp add: avl_file_startge_def lread_hdr_def start_finish_def startge_loop.simps
      tree_prev_def tree_next_def leftmost.simps rightmost.simps file3_lread lwrite_def
      ap1_def file3_def hdr3_def rec10_def rec20_def rec30_def rec_cpr1_def cmp_byte_def key_of_def lread_def)

text \<open>
  Claim C9. A call of \<open>avl_file_find\<close> that returns -1 leaves the data
  buffer of the caller as it was, also when the key index is out of range,
  in which case it returns -1 without touching the file; the buffer that
  \<open>avl_file_startge\<close> and \<open>avl_file_startlt\<close> return with 0 is the data
  of the record found.
\<close>

theorem find_keeps_buffer:
  "(avl_file_find ap f data k sr0 = Some (- 1, data', f') \<longrightarrow> data' = data)
   \<and> (k < 0 \<or> k \<ge> int (af_n_keys ap) \<longrightarrow> avl_file_find ap f data k sr0 = Some (- 1, data, f))
   \<and> (avl_file_startge ap f data k sr0 = Some (0, data', f')
        \<longrightarrow> (\<exists>a ar. 0 < a \<and> lread f a = Some ar \<and> data' = rec_b ar))
   \<and> (avl_file_startlt ap f data k sr0 = Some (0, data', f')
        \<longrightarrow> (\<exists>a ar. 0 < a \<and> lread f a = Some ar \<and> data' = rec_b ar))"
  by (auto simp: avl_file_find_def avl_file_startge_def avl_file_startlt_def start_finish_def
      split: if_splits bind_splits prod.splits)

theorem find_keeps_buffer_witness:
  "(\<exists>f'. avl_file_find ap1 file3 [15, 0, 0, 0] 0 rec_cpr1 = Some (- 1, [15, 0, 0, 0], f'))
   \<and> avl_file_find ap1 file3 [15, 0, 0, 0] 1 rec_cpr1 = Some (- 1, [15, 0, 0, 0], file3)
   \<and> (\<exists>f'. avl_file_startge ap1 file3 [15, 0, 0, 0] 0 rec_cpr1 = Some (0, [20, 0, 0, 0], f'))"
proof -
  obtain f1 where s: "avl_file_startge ap1 file3 [15, 0, 0, 0] 0 rec_cpr1 = Some (0, [20, 0, 0, 0], f1)"
    using file3_startge_eval by blast
  then obtain d where f: "avl_file_find ap1 file3 [15, 0, 0, 0] 0 rec_cpr1 = Some (- 1, d, f1)"
    by (simp add: avl_file_find_def ap1_def cmp_byte_def key_of_def)
  have k: "(1::int) \<ge> int (af_n_keys ap1)" by (simp add: ap1_def)
  from find_keeps_buffer[of ap1 file3 "[15, 0, 0, 0]" 0 rec_cpr1 d f1] f
  have "d = [15, 0, 0, 0]" by simp
  moreover from find_keeps_buffer[of ap1 file3 "[15, 0, 0, 0]" 1 rec_cpr1] k
  have "avl_file_find ap1 file3 [15, 0, 0, 0] 1 rec_cpr1 = Some (- 1, [15, 0, 0, 0], file3)"
    by simp
  ultimately show ?thesis using s f by blast
qed

subsection \<open>The sequential list\<close>

lemma chain_pos: "chain f a xs \<Longrightarrow> x \<in> set xs \<Longrightarrow> 0 < x \<and> (\<exists>xr. lread f x = Some xr)"
  by (induction xs arbitrary: a) (auto split: option.splits)

lemma chain_frame:
  "chain f a xs \<Longrightarrow> (\<And>x xr. x \<in> set xs \<Longrightarrow> lread f x = Some xr \<Longrightarrow>
      \<exists>xr'. lread f' x = Some xr' \<and> rec_next xr' = rec_next xr) \<Longrightarrow> chain f' a xs"
proof (induction xs arbitrary: a)
  case Nil then show ?case by simp
next
  case (Cons x xs)
  from Cons.prems(1) obtain xr where xr: "a = x" "0 < x" "lread f x = Some xr" "chain f (rec_next xr) xs"
    by (auto split: option.splits)
  from Cons.prems(2)[OF _ xr(3)] obtain xr' where xr': "lread f' x = Some xr'" "rec_next xr' = rec_next xr"
    by auto
  have "chain f' (rec_next xr) xs" using Cons.IH[OF xr(4)] Cons.prems(2) by simp
  with xr xr' show ?case by simp
qed

lemma chain_lwrite:
  "chain f a xs \<Longrightarrow> lwrite ap f c r = Some f' \<Longrightarrow> c \<notin> set xs \<Longrightarrow> chain f' a xs"
  by (erule chain_frame) (metis lwrite_lread_other)

lemma readseq_calls_run:
  "chain f (rec_prev cpr) xs \<Longrightarrow> lread f (af_cpr ap) = Some cpr \<Longrightarrow> af_cpr ap \<notin> set xs
    \<Longrightarrow> readseq_calls (Suc (length xs)) ap f d
        = Some (map (\<lambda>x. (False, 0, data_at f x)) xs @ [(True, - 1, last (d # map (data_at f) xs))])"
proof (induction xs arbitrary: f cpr d)
  case Nil
  then show ?case by (simp add: avl_file_readseq_def)
next
  case (Cons x xs)
  from Cons.prems(1) obtain xr where xr: "rec_prev cpr = x" "0 < x" "lread f x = Some xr"
    "chain f (rec_next xr) xs" by (auto split: option.splits)
  have cb: "0 \<le> af_cpr ap" "af_cpr ap \<le> lim f"
    using Cons.prems(2) by (auto simp: lread_def split: if_splits)
  then obtain f' where f': "lwrite ap f (af_cpr ap) (cpr\<lparr>rec_prev := rec_next xr\<rparr>) = Some f'"
    using lwrite_Some by blast
  have rs: "avl_file_readseq ap f d = Some (0, rec_b xr, f')"
    using Cons.prems(2) xr f' by (simp add: avl_file_readseq_def)
  have ch: "chain f' (rec_next xr) xs"
    using chain_lwrite[OF xr(4) f'] Cons.prems(3) by simp
  have da: "\<And>z. z \<in> set xs \<Longrightarrow> data_at f' z = data_at f z"
    using chain_pos[OF xr(4)] Cons.prems(3) f'
    by (metis data_at_lwrite list.set_intros(2))
  have IH: "readseq_calls (Suc (length xs)) ap f' (rec_b xr)
      = Some (map (\<lambda>x. (False, 0, data_at f' x)) xs @ [(True, - 1, last (rec_b xr # map (data_at f') xs))])"
    using Cons.IH[of f' "cpr\<lparr>rec_prev := rec_next xr\<rparr>" "rec_b xr"] ch lwrite_lread_same[OF f'] Cons.prems(3)
    by simp
  have m: "map (\<lambda>x. (False, 0::int, data_at f' x)) xs = map (\<lambda>x. (False, 0, data_at f x)) xs"
    "map (data_at f') xs = map (data_at f) xs"
    using da by auto
  have dx: "data_at f x = rec_b xr" using xr by (simp add: data_at_def)
  have step: "readseq_calls (Suc (Suc (length xs))) ap f d
      = do { rest \<leftarrow> readseq_calls (Suc (length xs)) ap f' (rec_b xr);
             Some ((False, 0, rec_b xr) # rest) }"
    using rs Cons.prems(2) xr by (subst readseq_calls.simps(2)) simp
  show ?case using step IH m dx by (simp del: readseq_calls.simps)
qed

subsection \<open>The tree operations keep the sequential list\<close>

lemma seqeq_refl[simp]: "seqeq r r" by (simp add: seqeq_def)
lemma seqeq_trans: "seqeq a b \<Longrightarrow> seqeq b c \<Longrightarrow> seqeq a c" by (simp add: seqeq_def)
lemma seqeq_sym: "seqeq a b \<Longrightarrow> seqeq b a" by (simp add: seqeq_def)

lemma seqeq_set[simp]:
  "seqeq r (set_l k v r')= seqeq r r'" "seqeq r (set_r k v r') = seqeq r r'"
  "seqeq r (set_b k v r') = seqeq r r'" "seqeq r (set_node k nd r') = seqeq r r'"
  by (simp_all add: seqeq_def set_l_def set_r_def set_b_def set_node_def)

lemma seq_same_refl[simp]: "seq_same f f" by (simp add: seq_same_def)

lemma seq_same_trans:
  assumes "seq_same f f'" "seq_same f' f''" shows "seq_same f f''"
proof -
  have "\<exists>r''. lread f'' x = Some r'' \<and> seqeq r r''" if "lread f x = Some r" for x r
  proof -
    from assms(1) that obtain r' where "lread f' x = Some r'" "seqeq r r'"
      unfolding seq_same_def by blast
    moreover from assms(2) this obtain r'' where "lread f'' x = Some r''" "seqeq r' r''"
      unfolding seq_same_def by blast
    ultimately show ?thesis using seqeq_trans by blast
  qed
  moreover have "lim f \<le> lim f''" "hdr f'' = hdr f"
    using assms unfolding seq_same_def by auto
  ultimately show ?thesis unfolding seq_same_def by blast
qed

lemma fresh_lread: "lread f x = Some r \<Longrightarrow> fresh f x r" by (simp add: fresh_def)

lemma fresh_mono:
  assumes "seq_same f f'" "fresh f x r" shows "fresh f' x r"
proof -
  from assms(2) obtain r0 where "lread f x = Some r0" "seqeq r0 r" unfolding fresh_def by blast
  moreover from assms(1) this obtain r1 where "lread f' x = Some r1" "seqeq r0 r1"
    unfolding seq_same_def by blast
  ultimately show ?thesis unfolding fresh_def using seqeq_trans seqeq_sym by blast
qed

lemma fresh_set[simp]:
  "fresh f x (set_l k v r) = fresh f x r" "fresh f x (set_r k v r) = fresh f x r"
  "fresh f x (set_b k v r) = fresh f x r" "fresh f x (set_node k nd r) = fresh f x r"
  by (simp_all add: fresh_def)

lemma lwrite_fresh:
  assumes "fresh f x r" "lwrite ap f x r = Some f'" shows "seq_same f f'"
proof -
  from assms(1) obtain r0 where r0: "lread f x = Some r0" "seqeq r0 r" unfolding fresh_def by blast
  have "\<exists>r'. lread f' z = Some r' \<and> seqeq v r'" if "lread f z = Some v" for z v
  proof (cases "z = x")
    case True
    with that r0 lwrite_lread_same[OF assms(2)] show ?thesis by simp
  next
    case False
    with that lwrite_lread_other[OF assms(2)] show ?thesis by auto
  qed
  moreover have "lim f \<le> lim f'" "hdr f' = hdr f"
    using lwrite_lim[OF assms(2)] lwrite_hdr_same[OF assms(2)] by auto
  ultimately show ?thesis unfolding seq_same_def by blast
qed

lemma lwrite_fresh_Some: "fresh f x r \<Longrightarrow> \<exists>f'. lwrite ap f x r = Some f'"
  unfolding fresh_def by (auto simp: lwrite_def lread_def split: if_splits)

lemma rot_cases_fresh[simp]:
  "fresh f p (fst (rot_cases k cr x y)) = fresh f p x"
  "fresh f p (snd (rot_cases k cr x y)) = fresh f p y"
  by (simp_all add: rot_cases_def)

lemma lwrite_same_step:
  "lwrite ap f x r = Some f1 \<Longrightarrow> fresh f x r \<Longrightarrow> seq_same f0 f \<Longrightarrow> seq_same f0 f1"
  using lwrite_fresh seq_same_trans by blast

lemma rot_lr_same:
  assumes "rot_lr ap k f a ar b br = Some (f', c, cr)" "fresh f a ar" "fresh f b br"
  shows "seq_same f f' \<and> fresh f' c cr"
proof -
  from assms(1) obtain y A B f1 f2 where
    y: "lread f (get_r k br) = Some y" and c: "c = get_r k br" "seqeq y cr"
    and w1: "lwrite ap f a A = Some f1" "fresh f a A"
    and w2: "lwrite ap f1 b B = Some f2" "fresh f b B"
    and w3: "lwrite ap f2 c cr = Some f'"
    using assms(2,3)
    by (clarsimp simp: rot_lr_def Let_def case_prod_beta bind_eq_Some_conv)
  have s1: "seq_same f f1" using w1 lwrite_fresh by blast
  have s2: "seq_same f f2" using lwrite_same_step[OF w2(1) fresh_mono[OF s1 w2(2)] s1] .
  have "fresh f c cr" using y c by (auto simp: fresh_def)
  then have "seq_same f f'" using lwrite_same_step[OF w3 fresh_mono[OF s2] s2] by simp
  moreover have "fresh f' c cr" using lwrite_lread_same[OF w3] by (simp add: fresh_def)
  ultimately show ?thesis by simp
qed


lemma rot_rl_same:
  assumes "rot_rl ap k f a ar b br = Some (f', c, cr)" "fresh f a ar" "fresh f b br"
  shows "seq_same f f' \<and> fresh f' c cr"
proof -
  from assms(1) obtain y A B f1 f2 where
    y: "lread f (get_l k br) = Some y" and c: "c = get_l k br" "seqeq y cr"
    and w1: "lwrite ap f a A = Some f1" "fresh f a A"
    and w2: "lwrite ap f1 b B = Some f2" "fresh f b B"
    and w3: "lwrite ap f2 c cr = Some f'"
    using assms(2,3)
    by (clarsimp simp: rot_rl_def Let_def case_prod_beta bind_eq_Some_conv)
  have s1: "seq_same f f1" using w1 lwrite_fresh by blast
  have s2: "seq_same f f2" using lwrite_same_step[OF w2(1) fresh_mono[OF s1 w2(2)] s1] .
  have "fresh f c cr" using y c by (auto simp: fresh_def)
  then have "seq_same f f'" using lwrite_same_step[OF w3 fresh_mono[OF s2] s2] by simp
  moreover have "fresh f' c cr" using lwrite_lread_same[OF w3] by (simp add: fresh_def)
  ultimately show ?thesis by simp
qed

lemma two_writes_same:
  assumes "lwrite ap f a A = Some f1" "fresh f a A" "lwrite ap f1 b B = Some f2" "fresh f b B"
  shows "seq_same f f2"
proof -
  have s1: "seq_same f f1" using assms(1,2) lwrite_fresh by blast
  show ?thesis using lwrite_same_step[OF assms(3) fresh_mono[OF s1 assms(4)] s1] .
qed

lemma insert_rotate_same:
  assumes "insert_rotate ap k f a ar b d = Some (f', b')" "fresh f a ar"
  shows "seq_same f f'"
proof -
  from assms(1) obtain br where br: "lread f b = Some br"
    by (auto simp: insert_rotate_def split: if_splits bind_splits)
  then have fb: "fresh f b br" by (rule fresh_lread)
  consider (single) A B f1 where "lwrite ap f a A = Some f1" "fresh f a A"
      "lwrite ap f1 b B = Some f'" "fresh f b B"
    | (lr) c cr where "rot_lr ap k f a ar b br = Some (f', c, cr)"
    | (rl) c cr where "rot_rl ap k f a ar b br = Some (f', c, cr)"
    using assms br fb
    by (auto simp: insert_rotate_def Let_def split: if_splits bind_splits)
  then show ?thesis
  proof cases
    case single then show ?thesis by (rule two_writes_same)
  next
    case lr then show ?thesis using rot_lr_same assms(2) fb by blast
  next
    case rl then show ?thesis using rot_rl_same assms(2) fb by blast
  qed
qed

lemma insert_balance_same:
  assumes "insert_balance ap f k yb y p = Some f'" shows "seq_same f f'"
proof (rule insert_balance.raw_induct[where P="\<lambda>ap f k yb y p f'. seq_same f f'", OF _ assms])
  fix ib ap f k yb y p f'
  assume IH: "\<And>ap f k yb y p f'. ib ap f k yb y p = Some f' \<Longrightarrow> seq_same f f'"
    and b: "(if p \<noteq> y
        then lread f p \<bind>
             (\<lambda>pr. if af_cmp ap k yb (rec_b pr) < 0
                   then lwrite ap f p (set_b k 1 pr) \<bind>
                        (\<lambda>f. ib ap f k yb y (get_l k pr))
                   else lwrite ap f p (set_b k (- 1) pr) \<bind>
                        (\<lambda>f. ib ap f k yb y (get_r k pr)))
        else Some f) = Some f'"
  show "seq_same f f'"
  proof (cases "p = y")
    case True with b show ?thesis by simp
  next
    case False
    with b obtain pr v q f1 where "lread f p = Some pr" "lwrite ap f p (set_b k v pr) = Some f1"
      "ib ap f1 k yb y q = Some f'"
      by (auto split: if_splits bind_splits)
    then show ?thesis using IH lwrite_fresh[of f p "set_b k v pr"] fresh_lread seq_same_trans
      by (metis fresh_set(3))
  qed
qed

lemma insert_descend_fresh:
  assumes "insert_descend ap f k yb p a fo fr q qr = Some (p', a', fo', fr', q', qr')"
    and "descend_inv f fo fr q qr"
  shows "descend_inv f fo' fr' q' qr' \<and> (0 < p \<or> 0 < q \<longrightarrow> 0 < q')"
proof -
  let ?P = "\<lambda>ap f k yb p a fo fr q qr res. descend_inv f fo fr q qr
      \<longrightarrow> (case res of (p', a', fo', fr', q', qr') \<Rightarrow>
            descend_inv f fo' fr' q' qr' \<and> (0 < p \<or> 0 < q \<longrightarrow> 0 < q'))"
  have "?P ap f k yb p a fo fr q qr (p', a', fo', fr', q', qr')"
  proof (rule insert_descend.raw_induct[where P="?P", OF _ assms(1)])
    fix idr ap f k yb p a fo fr q qr res
    assume IH: "\<And>ap f k yb p a fo fr q qr res. idr ap f k yb p a fo fr q qr = Some res \<Longrightarrow>
        ?P ap f k yb p a fo fr q qr res"
      and b: "(if 0 < p
        then lread f p \<bind>
             (\<lambda>pr. let (a, fo, fr) = if get_b k pr \<noteq> 0 then (p, q, qr) else (a, fo, fr)
                   in if af_cmp ap k yb (rec_b pr) < 0
                      then idr ap f k yb (get_l k pr) a fo fr p pr
                      else idr ap f k yb (get_r k pr) a fo fr p pr)
        else Some (p, a, fo, fr, q, qr)) = Some res"
    show "?P ap f k yb p a fo fr q qr res"
    proof (intro impI)
      assume h: "descend_inv f fo fr q qr"
      show "case res of (p', a', fo', fr', q', qr') \<Rightarrow>
            descend_inv f fo' fr' q' qr' \<and> (0 < p \<or> 0 < q \<longrightarrow> 0 < q')"
      proof (cases "0 < p")
        case False
        with b h show ?thesis by (auto simp: descend_inv_def)
      next
        case True
        with b obtain pr nx a1 fo1 fr1 where pr: "lread f p = Some pr"
          and r: "idr ap f k yb nx a1 fo1 fr1 p pr = Some res"
          and e: "(a1, fo1, fr1) = (if get_b k pr \<noteq> 0 then (p, q, qr) else (a, fo, fr))"
          by (auto simp: Let_def split: if_splits bind_splits prod.splits)
        have "descend_inv f fo1 fr1 p pr"
          using h e True fresh_lread[OF pr] by (auto simp: descend_inv_def split: if_splits)
        with IH[OF r] True show ?thesis by (auto split: prod.splits)
      qed
    qed
  qed
  with assms(2) show ?thesis by simp
qed

lemma seqeq_set1[simp]:
  "seqeq (set_l k v r) r' = seqeq r r'" "seqeq (set_r k v r) r' = seqeq r r'"
  "seqeq (set_b k v r) r' = seqeq r r'" "seqeq (set_node k nd r) r' = seqeq r r'"
  by (simp_all add: seqeq_def set_l_def set_r_def set_b_def set_node_def)

lemma set_node_fields[simp]:
  "rec_b (set_node k nd r) = rec_b r" "rec_prev (set_node k nd r) = rec_prev r"
  "rec_next (set_node k nd r) = rec_next r" "length (rec_n (set_node k nd r)) = length (rec_n r)"
  by (simp_all add: set_node_def)

lemma set_b_fields[simp]:
  "rec_b (set_b k v r) = rec_b r" "rec_prev (set_b k v r) = rec_prev r"
  "rec_next (set_b k v r) = rec_next r" "length (rec_n (set_b k v r)) = length (rec_n r)"
  by (simp_all add: set_b_def)

lemma insert_link_same:
  assumes "insert_link ap k f y yr p q qr = Some (f', yr')" "fresh f y yr" "fresh f q qr"
  shows "seq_same f f' \<and> rec_b yr' = rec_b yr"
proof -
  from assms obtain A B f1 where "lwrite ap f y A = Some f1" "fresh f y A"
    "lwrite ap f1 q B = Some f'" "fresh f q B" "rec_b yr' = rec_b yr"
    by (auto simp: insert_link_def Let_def split: if_splits bind_splits)
  then show ?thesis using two_writes_same by blast
qed

lemma insert_adjust_same:
  assumes "insert_adjust ap k f a ar d = Some (f', ar', u)" "fresh f a ar"
  shows "seq_same f f' \<and> fresh f' a ar'"
proof -
  from assms(1) obtain f1 ar1 u1 where
    s1: "(if get_b k ar = 0 then lwrite ap f a (set_b k d ar) \<bind> (\<lambda>f. Some (f, set_b k d ar, False))
          else Some (f, ar, True)) = Some (f1, ar1, u1)"
    and s2: "(if get_b k ar1 + d = 0 then lwrite ap f1 a (set_b k 0 ar1) \<bind> (\<lambda>f. Some (f, set_b k 0 ar1, False))
          else Some (f1, ar1, u1)) = Some (f', ar', u)"
    by (auto simp: insert_adjust_def bind_eq_Some_conv)
  have a1: "seq_same f f1 \<and> fresh f1 a ar1"
  proof (cases "get_b k ar = 0")
    case True
    with s1 have w: "lwrite ap f a (set_b k d ar) = Some f1" "ar1 = set_b k d ar"
      by (auto simp: bind_eq_Some_conv)
    then show ?thesis using lwrite_fresh[of f a "set_b k d ar"] assms(2) lwrite_lread_same[OF w(1)]
      by (simp add: fresh_def)
  next
    case False with s1 assms(2) show ?thesis by simp
  qed
  show ?thesis
  proof (cases "get_b k ar1 + d = 0")
    case True
    with s2 have w: "lwrite ap f1 a (set_b k 0 ar1) = Some f'" "ar' = set_b k 0 ar1"
      by (auto simp: bind_eq_Some_conv)
    then show ?thesis using lwrite_same_step[OF w(1)] a1 lwrite_lread_same[OF w(1)]
      by (simp add: fresh_def)
  next
    case False with s2 a1 show ?thesis by simp
  qed
qed

lemma insert_reparent_same:
  assumes "insert_reparent ap k f h a b fo fr = Some (f', h')" "fo = 0 \<or> fresh f fo fr"
  shows "seq_same f f' \<and> h'\<lparr>root := root h\<rparr> = h"
proof (cases "fo = 0")
  case True with assms show ?thesis by (auto simp: insert_reparent_def)
next
  case False
  with assms obtain r where "lwrite ap f fo r = Some f'" "fresh f fo r" "h' = h"
    by (auto simp: insert_reparent_def Let_def split: if_splits bind_splits)
  then show ?thesis using lwrite_fresh by auto
qed

lemma insert_key_same:
  assumes "insert_key ap y yr0 k f h = Some (f', h')"
  shows "seq_same f f' \<and> h'\<lparr>root := root h\<rparr> = h"
proof -
  from assms obtain yr where yr: "lread f y = Some yr"
    by (auto simp: insert_key_def split: bind_splits)
  show ?thesis
  proof (cases "root h ! k > 0")
    case False
    with assms yr obtain nd where "lwrite ap f y (set_node k nd yr) = Some f'"
      "h' = h\<lparr>root := (root h)[k := y]\<rparr>"
      by (auto simp: insert_key_def split: bind_splits)
    then show ?thesis using lwrite_fresh[of f y "set_node k nd yr"] fresh_lread[OF yr]
      by simp
  next
    case True
    with assms yr obtain p a fo fr q qr f1 yr1 ar d b f2 f3 ar3 u where
      de: "insert_descend ap f k (rec_b yr) (root h ! k) (root h ! k) 0 yr0 0 yr0
            = Some (p, a, fo, fr, q, qr)"
      and li: "insert_link ap k f y yr p q qr = Some (f1, yr1)"
      and ar: "lread f1 a = Some ar"
      and ba: "insert_balance ap f1 k (rec_b yr1) y b = Some f2"
      and ad: "insert_adjust ap k f2 a ar d = Some (f3, ar3, u)"
      and fin: "(if u then insert_rotate ap k f3 a ar3 b d \<bind> (\<lambda>(f, b). insert_reparent ap k f h a b fo fr)
                 else Some (f3, h)) = Some (f', h')"
      by (auto simp: insert_key_def Let_def bind_eq_Some_conv)
    from insert_descend_fresh[OF de] True
    have q: "0 < q" "fresh f q qr" "fo = 0 \<or> fresh f fo fr"
      by (auto simp: descend_inv_def)
    have s1: "seq_same f f1" using insert_link_same[OF li fresh_lread[OF yr] q(2)] by simp
    have s2: "seq_same f1 f2" using insert_balance_same[OF ba] .
    have s3: "seq_same f2 f3" "fresh f3 a ar3"
      using insert_adjust_same[OF ad fresh_mono[OF s2 fresh_lread[OF ar]]] by simp_all
    have s03: "seq_same f f3" using s1 s2 s3(1) seq_same_trans by blast
    show ?thesis
    proof (cases u)
      case False
      with fin s03 show ?thesis by simp
    next
      case True
      with fin obtain f4 b4 where ro: "insert_rotate ap k f3 a ar3 b d = Some (f4, b4)"
        and re: "insert_reparent ap k f4 h a b4 fo fr = Some (f', h')"
        by (auto simp: bind_eq_Some_conv)
      have s4: "seq_same f3 f4" using insert_rotate_same[OF ro s3(2)] .
      have s04: "seq_same f f4" using s03 s4 seq_same_trans by blast
      have "fo = 0 \<or> fresh f4 fo fr" using q(3) fresh_mono[OF s04] by blast
      from insert_reparent_same[OF re this] s04 show ?thesis
        using seq_same_trans by blast
    qed
  qed
qed

lemma insert_keys_same:
  "insert_keys ap y yr0 ks f h = Some (f', h') \<Longrightarrow> seq_same f f' \<and> h'\<lparr>root := root h\<rparr> = h"
proof (induction ks arbitrary: f h)
  case Nil then show ?case by simp
next
  case (Cons k ks)
  from Cons.prems obtain f1 h1 where a: "insert_key ap y yr0 k f h = Some (f1, h1)"
    and b: "insert_keys ap y yr0 ks f1 h1 = Some (f', h')"
    by (auto simp: bind_eq_Some_conv)
  from insert_key_same[OF a] have 1: "seq_same f f1" "h1\<lparr>root := root h\<rparr> = h" by simp_all
  from Cons.IH[OF b] have 2: "seq_same f1 f'" "h'\<lparr>root := root h1\<rparr> = h1" by simp_all
  have "h'\<lparr>root := root h\<rparr> = (h'\<lparr>root := root h1\<rparr>)\<lparr>root := root h\<rparr>" by simp
  also have "\<dots> = h" unfolding 2(2) by (rule 1(2))
  finally show ?case using seq_same_trans[OF 1(1) 2(1)] by simp
qed

lemma next_same_refl[simp]: "next_same f f" by (simp add: next_same_def)

lemma next_same_trans:
  assumes "next_same f f'" "next_same f' f''" shows "next_same f f''"
proof -
  have "\<exists>r''. lread f'' x = Some r'' \<and> rec_next r'' = rec_next r \<and> rec_b r'' = rec_b r"
    if "lread f x = Some r" for x r
  proof -
    from assms(1) that obtain r' where "lread f' x = Some r'" "rec_next r' = rec_next r" "rec_b r' = rec_b r"
      unfolding next_same_def by blast
    moreover from assms(2) this obtain r'' where "lread f'' x = Some r''"
      "rec_next r'' = rec_next r'" "rec_b r'' = rec_b r'"
      unfolding next_same_def by blast
    ultimately show ?thesis by simp
  qed
  moreover have "lim f \<le> lim f''" using assms unfolding next_same_def by auto
  ultimately show ?thesis unfolding next_same_def by blast
qed

lemma seq_same_next_same: "seq_same f f' \<Longrightarrow> next_same f f'"
  unfolding seq_same_def next_same_def seqeq_def by blast

lemma next_same_lwrite_other:
  assumes "lwrite ap f c r = Some f'" "lread f c = None"
  shows "next_same f f'"
proof -
  have "\<exists>r'. lread f' x = Some r' \<and> rec_next r' = rec_next v \<and> rec_b r' = rec_b v"
    if "lread f x = Some v" for x v
    using that assms lwrite_lread_other[OF assms(1), of x v] by (cases "x = c") auto
  then show ?thesis using lwrite_lim[OF assms(1)] unfolding next_same_def by blast
qed

lemma next_same_lwrite:
  assumes "lwrite ap f c r = Some f'" "lread f c = Some r0" "rec_next r = rec_next r0" "rec_b r = rec_b r0"
  shows "next_same f f'"
proof -
  have "\<exists>r'. lread f' x = Some r' \<and> rec_next r' = rec_next v \<and> rec_b r' = rec_b v"
    if "lread f x = Some v" for x v
    using that assms lwrite_lread_other[OF assms(1), of x v] lwrite_lread_same[OF assms(1)]
    by (cases "x = c") auto
  then show ?thesis using lwrite_lim[OF assms(1)] unfolding next_same_def by blast
qed

lemma chain_next_same: "chain f a xs \<Longrightarrow> next_same f f' \<Longrightarrow> chain f' a xs"
  by (erule chain_frame) (auto simp: next_same_def)

lemma data_at_next_same: "next_same f f' \<Longrightarrow> lread f x = Some r \<Longrightarrow> data_at f' x = data_at f x"
  unfolding next_same_def data_at_def by fastforce

lemma lread_next_same: "next_same f f' \<Longrightarrow> lread f x \<noteq> None \<Longrightarrow> lread f' x \<noteq> None"
  unfolding next_same_def by fastforce

lemma chain_lwrite_any:
  "chain f a xs \<Longrightarrow> lwrite ap f c r = Some f' \<Longrightarrow> c \<notin> set xs \<Longrightarrow> chain f' a xs"
  by (rule chain_lwrite)

lemma chain_distinct: "chain f a xs \<Longrightarrow> chain f a ys \<Longrightarrow> xs = ys"
proof (induction xs arbitrary: a ys)
  case Nil then show ?case by (cases ys) auto
next
  case (Cons x xs) then show ?case by (cases ys) (auto split: option.splits)
qed


lemma chain_head_ge: "chain f a xs \<Longrightarrow> a > 0 \<Longrightarrow> \<exists>r. lread f a = Some r \<and> xs \<noteq> [] \<and> a = hd xs"
  by (cases xs) (auto split: option.splits)

lemma chain_head_le: "chain f a xs \<Longrightarrow> \<not> a > 0 \<Longrightarrow> xs = [] \<and> a = 0"
  by (cases xs) (auto split: option.splits)

lemma insert_alloc_props:
  assumes "insert_alloc f h yr0 = Some (y, yr, h1)" "chain f (head_empty h) es" "distinct es"
    "\<forall>x\<in>set es. x < lim f"
  shows "\<exists>es'. chain f (head_empty h1) es' \<and> distinct es' \<and> set es' \<subseteq> set es \<and> y \<notin> set es'
      \<and> (es = [] \<and> y = lim f \<or> y \<in> set es \<and> 0 < y)
      \<and> h1\<lparr>head_empty := head_empty h\<rparr> = h"
proof (cases "head_empty h = 0")
  case True
  with assms(1) have "y = lim f" "h1 = h" by (auto simp: insert_alloc_def)
  moreover have "es = []" using assms(2) True by (cases es) auto
  ultimately show ?thesis using assms(2) by auto
next
  case False
  with assms(1) have b: "lread f (head_empty h) \<bind>
      (\<lambda>yr. Some (head_empty h, yr, h\<lparr>head_empty := rec_next yr\<rparr>)) = Some (y, yr, h1)"
    by (simp add: insert_alloc_def)
  then obtain er where er0: "lread f (head_empty h) = Some er"
    by (cases "lread f (head_empty h)") simp_all
  with b have er: "lread f (head_empty h) = Some er" "y = head_empty h"
    "h1 = h\<lparr>head_empty := rec_next er\<rparr>" by auto
  from assms(2) False er have "\<exists>et. es = y # et \<and> chain f (rec_next er) et \<and> 0 < y"
    by (cases es) simp_all
  then obtain et where et: "es = y # et" "chain f (rec_next er) et" "0 < y" by blast
  have "distinct et" "set et \<subseteq> set es" "y \<notin> set et" "y \<in> set es"
    using et(1) assms(3) by auto
  moreover have "h1\<lparr>head_empty := head_empty h\<rparr> = h" using er(3) by simp
  moreover have "chain f (head_empty h1) et" using et(2) er(3) by simp
  ultimately show ?thesis using et(3) by blast
qed

lemma insert_front_props:
  assumes "insert_front ap f h y yr d = Some (f', h')"
  shows "\<exists>fA yr'. next_same f fA \<and> lwrite ap fA y yr' = Some f'
      \<and> rec_next yr' = head_seq h \<and> rec_b yr' = d \<and> h' = h\<lparr>head_seq := y\<rparr>"
proof -
  from assms(1) obtain fA where
    wA: "(if head_seq h > 0
          then lread f (head_seq h) \<bind> (\<lambda>pr. lwrite ap f (head_seq h) (pr\<lparr>rec_prev := y\<rparr>))
          else Some f) = Some fA"
    and wB: "lwrite ap fA y (yr\<lparr>rec_prev := 0, rec_next := head_seq h, rec_b := d\<rparr>) = Some f'"
    and h': "h' = h\<lparr>head_seq := y\<rparr>"
    by (auto simp: insert_front_def Let_def bind_eq_Some_conv cong: if_cong)
  have nA: "next_same f fA"
  proof (cases "head_seq h > 0")
    case True
    with wA obtain pr where pr: "lread f (head_seq h) = Some pr"
      "lwrite ap f (head_seq h) (pr\<lparr>rec_prev := y\<rparr>) = Some fA"
      by (auto simp: bind_eq_Some_conv)
    show "next_same f fA" using pr(2,1) by (rule next_same_lwrite) simp_all
  next
    case False with wA show ?thesis by simp
  qed
  with wB h' show ?thesis by (intro exI[of _ fA] exI) auto
qed


lemma lwrite_next_same_chain:
  assumes "lwrite ap f y r = Some f'" "chain f a xs" "y \<notin> set xs"
  shows "chain f' a xs"
  using chain_lwrite[OF assms(2,1,3)] .

lemma insert_seq:
  assumes ok: "seq_ok ap f xs es" and rl: "0 < af_reclen ap"
    and ins: "avl_file_insert ap f d yr0 = Some (0, f')"
  shows "\<exists>y es'. seq_ok ap f' (y # xs) es' \<and> data_at f' y = d
           \<and> (\<forall>x\<in>set xs. data_at f' x = data_at f x)"
proof -
  from ok have hl: "af_hdrlen ap \<le> lim f" and cx: "chain f (head_seq (hdr f)) xs"
    and ce: "chain f (head_empty (hdr f)) es" and de: "distinct es" and dj: "set xs \<inter> set es = {}"
    and cr: "lread f (af_cpr ap) \<noteq> None" and cnx: "af_cpr ap \<notin> set xs" and cne: "af_cpr ap \<notin> set es"
    and lt: "af_cpr ap < lim f" "\<forall>x\<in>set xs. x < lim f" "\<forall>x\<in>set es. x < lim f"
    by (auto simp: seq_ok_def list_all_iff)
  have cpos: "0 \<le> af_cpr ap" using cr by (auto simp: lread_def split: if_splits)
  from ins hl obtain y yr h1 fB h2 fC h3 where
    al: "insert_alloc f (hdr f) yr0 = Some (y, yr, h1)"
    and fr: "insert_front ap f h1 y yr d = Some (fB, h2)"
    and ik: "insert_keys ap y yr0 [0..<af_n_keys ap] fB h2 = Some (fC, h3)"
    and wh: "lwrite_hdr ap fC (h3\<lparr>n_avl := n_avl h3 + 1\<rparr>) = Some f'"
    by (auto simp: avl_file_insert_def lread_hdr_def Let_def bind_eq_Some_conv split: if_splits)
  from insert_alloc_props[OF al ce de lt(3)] obtain es' where
    es': "chain f (head_empty h1) es'" "distinct es'" "set es' \<subseteq> set es" "y \<notin> set es'"
      "es = [] \<and> y = lim f \<or> y \<in> set es \<and> 0 < y" "h1\<lparr>head_empty := head_empty (hdr f)\<rparr> = hdr f"
    by blast
  have hs1: "head_seq h1 = head_seq (hdr f)" using arg_cong[OF es'(6), of head_seq] by simp
  have y: "0 < y" "y \<notin> set xs" "y \<noteq> af_cpr ap" "y \<le> lim f"
    using es'(5) lt cpos dj cne by auto
  from insert_front_props[OF fr] obtain fA yr' where
    nA: "next_same f fA" and wB: "lwrite ap fA y yr' = Some fB"
    and yr': "rec_next yr' = head_seq h1" "rec_b yr' = d" and h2: "h2 = h1\<lparr>head_seq := y\<rparr>"
    by blast
  from insert_keys_same[OF ik] have sC: "seq_same fB fC" and h3: "h3\<lparr>root := root h2\<rparr> = h2"
    by simp_all
  have nC: "next_same fB fC" using sC by (rule seq_same_next_same)
  have hf': "hdr f' = h3\<lparr>n_avl := n_avl h3 + 1\<rparr>" and lf': "lim fC \<le> lim f'"
    and rf': "\<And>x. lread fC x \<noteq> None \<Longrightarrow> lread f' x = lread fC x"
    using wh by (auto simp: lwrite_hdr_def lread_def split: if_splits)
  have nF: "next_same fC f'" using lf' rf' unfolding next_same_def by fastforce
  \<comment> \<open>the chains\<close>
  have cxB: "chain fB (head_seq (hdr f)) xs"
    using chain_lwrite[OF chain_next_same[OF cx nA] wB y(2)] .
  have yB: "lread fB y = Some yr'" using lwrite_lread_same[OF wB] .
  have cyB: "chain fB y (y # xs)" using cxB yB yr' hs1 y(1) by simp
  have ceB: "chain fB (head_empty h1) es'"
    using chain_lwrite[OF chain_next_same[OF es'(1) nA] wB es'(4)] .
  have nBF: "next_same fB f'" using next_same_trans[OF nC nF] .
  have c1: "chain f' y (y # xs)" using chain_next_same[OF cyB nBF] .
  have c2: "chain f' (head_empty h1) es'" using chain_next_same[OF ceB nBF] .
  have hq: "head_seq (hdr f') = y" "head_empty (hdr f') = head_empty h1"
    using arg_cong[OF h3, of head_seq] arg_cong[OF h3, of head_empty] hf' h2 by simp_all
  have keep: "\<exists>r'. lread f' x = Some r' \<and> rec_b r' = rec_b r" if "lread f x = Some r" "x \<noteq> y" for x r
  proof -
    from nA that(1) obtain r1 where r1: "lread fA x = Some r1" "rec_b r1 = rec_b r"
      unfolding next_same_def by blast
    have "lread fB x = Some r1" using lwrite_lread_other[OF wB that(2) r1(1)] .
    with nBF r1(2) show ?thesis unfolding next_same_def by fastforce
  qed
  have dy: "data_at f' y = d" using data_at_next_same[OF nBF yB] yB yr'(2) by (simp add: data_at_def)
  have dx: "\<forall>x\<in>set xs. data_at f' x = data_at f x"
  proof
    fix x assume x: "x \<in> set xs"
    then obtain r where "lread f x = Some r" using chain_pos[OF cx] by blast
    moreover have "x \<noteq> y" using x y(2) by auto
    ultimately show "data_at f' x = data_at f x" using keep[of x r] by (auto simp: data_at_def)
  qed
  have crf: "lread f' (af_cpr ap) \<noteq> None"
    using cr keep[of "af_cpr ap"] y(3) by fastforce
  have lims: "lim f \<le> lim f'" "y < lim f'"
  proof -
    have "lim f \<le> lim fA" using nA by (simp add: next_same_def)
    moreover have "lim fA \<le> lim fB" "y + af_reclen ap \<le> lim fB"
      using wB by (auto simp: lwrite_def split: if_splits)
    moreover have "lim fB \<le> lim f'" using nBF by (simp add: next_same_def)
    ultimately show "lim f \<le> lim f'" "y < lim f'" using rl by auto
  qed
  have b1: "\<forall>x\<in>set es'. x < lim f'" "\<forall>x\<in>set xs. x < lim f'" "af_cpr ap < lim f'"
    using es'(3) lt lims(1) by fastforce+
  have b2: "set (y # xs) \<inter> set es' = {}" "af_cpr ap \<notin> set (y # xs)" "af_cpr ap \<notin> set es'"
    using es'(3,4) dj cnx cne y(3) by auto
  have "seq_ok ap f' (y # xs) es'"
    unfolding seq_ok_def using c1 c2 hq es'(2) b1 b2 crf lims hl
    by (auto simp: list_all_iff)
  with dy dx show ?thesis by blast
qed

subsection \<open>avl\_file\_startseq and avl\_file\_readseq\<close>

lemmas eval_defs = lread_def lwrite_def lread_hdr_def lwrite_hdr_def Let_def
  set_l_def set_r_def set_b_def set_node_def cmp_byte_def key_of_def

lemma file3_insert40: "insert_calls ap1 file3 [[40, 0, 0, 0]] rec_cpr1 \<noteq> None"
  by (simp add: avl_file_insert_def insert_alloc_def insert_front_def insert_key_def
      insert_descend.simps insert_link_def insert_balance.simps insert_adjust_def
      insert_rotate_def insert_reparent_def
      ap1_def file3_def hdr3_def rec10_def rec20_def rec30_def rec_cpr1_def eval_defs)

lemma file3_seq_ok: "seq_ok ap1 file3 [216, 168, 120] []"
  by (simp add: seq_ok_def ap1_def lread_def file3_def hdr3_def rec10_def rec20_def rec30_def)
lemma insert_calls_seq:
  "seq_ok ap f xs es \<Longrightarrow> 0 < af_reclen ap \<Longrightarrow> insert_calls ap f ds yr0 = Some f'
    \<Longrightarrow> \<exists>ys es'. seq_ok ap f' (ys @ xs) es'
          \<and> map (data_at f') (ys @ xs) = rev ds @ map (data_at f) xs"
proof (induction ds arbitrary: f xs es)
  case Nil
  then show ?case by (intro exI[of _ "[]"] exI[of _ es]) simp
next
  case (Cons d ds)
  from Cons.prems(3) obtain f1 where i1: "avl_file_insert ap f d yr0 = Some (0, f1)"
    and i2: "insert_calls ap f1 ds yr0 = Some f'"
    by (auto simp: bind_eq_Some_conv split: if_splits)
  from insert_seq[OF Cons.prems(1,2) i1] obtain y es1 where
    y: "seq_ok ap f1 (y # xs) es1" "data_at f1 y = d" "\<forall>x\<in>set xs. data_at f1 x = data_at f x"
    by blast
  from Cons.IH[OF y(1) Cons.prems(2) i2] obtain ys es' where
    ys: "seq_ok ap f' (ys @ y # xs) es'"
      "map (data_at f') (ys @ y # xs) = rev ds @ map (data_at f1) (y # xs)" by blast
  have "map (data_at f1) (y # xs) = d # map (data_at f) xs" using y(2,3) by simp
  with ys show ?case by (intro exI[of _ "ys @ [y]"] exI[of _ es']) simp
qed

text \<open>
  Claim C5. On a file whose sequential list holds the records \<open>xs\<close>, after
  the data \<open>ds\<close> have been inserted one after the other,
  \<open>avl_file_startseq\<close> followed by calls of \<open>avl_file_readseq\<close> returns
  the data inserted, the last inserted first, and then the data of \<open>xs\<close>
  from the head of the list, each record once; each of these calls finds a
  sequential pointer other than 0 and returns 0, and the call after them
  finds it 0 and returns -1.
\<close>

theorem readseq_reverse_insertion_order:
  assumes "seq_ok ap f xs es" and "0 < af_reclen ap" and "insert_calls ap f ds yr0 = Some f'"
  shows "\<exists>f1. avl_file_startseq ap f' = Some f1
      \<and> readseq_calls (Suc (length ds + length xs)) ap f1 d0
          = Some (map (\<lambda>d. (False, 0, d)) (rev ds @ map (data_at f) xs)
                  @ [(True, - 1, last (d0 # rev ds @ map (data_at f) xs))])"
proof -
  from insert_calls_seq[OF assms] obtain ys es' where
    ok: "seq_ok ap f' (ys @ xs) es'"
    and da: "map (data_at f') (ys @ xs) = rev ds @ map (data_at f) xs" by blast
  let ?zs = "ys @ xs"
  from ok obtain cpr where cpr: "lread f' (af_cpr ap) = Some cpr"
    and cz: "chain f' (head_seq (hdr f')) ?zs" and cn: "af_cpr ap \<notin> set ?zs"
    by (auto simp: seq_ok_def)
  have "0 \<le> af_cpr ap" "af_cpr ap \<le> lim f'"
    using cpr by (auto simp: lread_def split: if_splits)
  then obtain f1 where f1: "lwrite ap f' (af_cpr ap) (cpr\<lparr>rec_prev := head_seq (hdr f')\<rparr>) = Some f1"
    using lwrite_Some by blast
  have ss: "avl_file_startseq ap f' = Some f1"
    using cpr f1 by (simp add: avl_file_startseq_def)
  have c1: "chain f1 (rec_prev (cpr\<lparr>rec_prev := head_seq (hdr f')\<rparr>)) ?zs"
    using chain_lwrite[OF cz f1 cn] by simp
  have d1: "map (data_at f1) ?zs = map (data_at f') ?zs"
  proof (rule map_cong[OF refl])
    fix x assume "x \<in> set ?zs"
    then show "data_at f1 x = data_at f' x"
      using chain_pos[OF cz, of x] cn data_at_lwrite[OF f1, of x] by auto
  qed
  have len: "length ?zs = length ds + length xs"
    using arg_cong[OF da, of length] by simp
  have m: "map (\<lambda>x. (False, 0::int, data_at f1 x)) ?zs = map (\<lambda>d. (False, 0, d)) (map (data_at f1) ?zs)"
    by (simp add: comp_def)
  from readseq_calls_run[OF c1 lwrite_lread_same[OF f1] cn, of d0]
  show ?thesis using ss unfolding len m d1 da by blast
qed

theorem readseq_reverse_insertion_order_witness:
  "seq_ok ap1 file3 [216, 168, 120] [] \<and> 0 < af_reclen ap1
   \<and> (\<exists>f' f1. insert_calls ap1 file3 [[40, 0, 0, 0]] rec_cpr1 = Some f'
         \<and> avl_file_startseq ap1 f' = Some f1
         \<and> readseq_calls 5 ap1 f1 [] =
             Some [(False, 0, [40, 0, 0, 0]), (False, 0, [30, 0, 0, 0]), (False, 0, [20, 0, 0, 0]),
                   (False, 0, [10, 0, 0, 0]), (True, - 1, [10, 0, 0, 0])])"
proof -
  have r: "0 < af_reclen ap1" by (simp add: ap1_def)
  obtain f' where i: "insert_calls ap1 file3 [[40, 0, 0, 0]] rec_cpr1 = Some f'"
    using file3_insert40 by blast
  have five: "Suc (length [[40, 0, 0, 0 :: 8 word]] + length [216, 168, 120 :: int]) = 5" by simp
  from readseq_reverse_insertion_order[OF file3_seq_ok r i, of "[]"]
  show ?thesis using file3_seq_ok r i unfolding five
    by (auto simp: file3_data simp del: readseq_calls.simps)
qed

subsection \<open>The sequential list in avl\_file\_delete\<close>

lemma dseg_pos: "dseg f p a xs e \<Longrightarrow> x \<in> set xs \<Longrightarrow> 0 < x \<and> (\<exists>xr. lread f x = Some xr)"
  by (induction xs arbitrary: p a) (auto split: option.splits)

lemma dseg_append:
  "dseg f p a (xs @ ys) e \<longleftrightarrow> (\<exists>m. dseg f p a xs m \<and> dseg f (last (p # xs)) m ys e)"
  by (induction xs arbitrary: p a) (auto split: option.splits)

lemma dseg_frame:
  "dseg f p a xs e \<Longrightarrow> (\<And>x. x \<in> set xs \<Longrightarrow> lread f' x = lread f x) \<Longrightarrow> dseg f' p a xs e"
  by (induction xs arbitrary: p a) (auto split: option.splits)

lemma dseg_lwrite:
  assumes "dseg f p a xs e" "lwrite ap f c r = Some f'" "c \<notin> set xs"
  shows "dseg f' p a xs e"
proof (rule dseg_frame[OF assms(1)])
  fix x assume "x \<in> set xs"
  then obtain xr where "lread f x = Some xr" "x \<noteq> c" using dseg_pos[OF assms(1)] assms(3) by blast
  then show "lread f' x = lread f x" using lwrite_lread_other[OF assms(2)] by simp
qed

lemma dseg_chain: "dseg f p a xs 0 \<Longrightarrow> chain f a xs"
  by (induction xs arbitrary: p a) (auto split: option.splits)

lemma seq_scan_chain:
  "chain f a xs \<Longrightarrow> delete_seq_scan f d a yr
     = Some (case find (\<lambda>x. data_at f x = d) xs of None \<Rightarrow> (0, yr)
             | Some y \<Rightarrow> (y, the (lread f y)))"
proof (induction xs arbitrary: a)
  case Nil then show ?case by (subst delete_seq_scan.simps) simp
next
  case (Cons x xs)
  then obtain xr where xr: "a = x" "0 < x" "lread f x = Some xr" "chain f (rec_next xr) xs"
    by (auto split: option.splits)
  show ?case using xr Cons.IH[OF xr(4)]
    by (subst delete_seq_scan.simps) (auto simp: data_at_def)
qed

lemma lwrite_inside:
  "lwrite ap f c r = Some f' \<Longrightarrow> c + af_reclen ap \<le> lim f
    \<Longrightarrow> lim f' = lim f \<and> hdr f' = hdr f \<and> (\<forall>x. x \<noteq> c \<longrightarrow> lread f' x = lread f x)"
  by (auto simp: lwrite_def lread_def split: if_splits)

text \<open>The loop over the current-pointer records changes these records only.\<close>

lemma advance_cpr_next: "rec_next (fst (advance_cpr ap y yr ur cpr)) = rec_next cpr"
proof -
  have "rec_next (fst (fold (\<lambda>k (cpr, updated).
             let (cpr, updated) =
                   (if get_l k cpr = y then (set_l k (get_l k ur) cpr, True) else (cpr, updated))
             in (if get_r k cpr = y then (set_r k (get_r k ur) cpr, True) else (cpr, updated))) ks cu))
        = rec_next (fst cu)" for ks cu
    by (induction ks arbitrary: cu) (auto simp: Let_def split: prod.splits)
  then show ?thesis unfolding advance_cpr_def by simp
qed

lemma cpr_loop_chain:
  "chain f cp cs \<Longrightarrow> distinct cs \<Longrightarrow> \<forall>c\<in>set cs. c + af_reclen ap \<le> lim f
    \<Longrightarrow> \<exists>f'. delete_cpr_loop ap f y yr ur cp = Some f' \<and> hdr f' = hdr f \<and> lim f' = lim f
          \<and> (\<forall>x. x \<notin> set cs \<longrightarrow> lread f' x = lread f x)"
proof (induction cs arbitrary: f cp)
  case Nil
  then have "\<not> cp > 0" by simp
  then show ?case by (subst delete_cpr_loop.simps) simp
next
  case (Cons c cs)
  from Cons.prems(1) obtain cr where cr: "cp = c" "0 < c" "lread f c = Some cr" "chain f (rec_next cr) cs"
    by (cases "lread f c") simp_all
  obtain cr' u where adv: "advance_cpr ap y yr ur cr = (cr', u)" by (cases "advance_cpr ap y yr ur cr")
  have nx: "rec_next cr' = rec_next cr" using advance_cpr_next[of ap y yr ur cr] adv by simp
  have cb: "0 \<le> c" "c \<le> lim f" "c + af_reclen ap \<le> lim f"
    using cr(2) Cons.prems(3) lread_SomeD[OF cr(3)] by simp_all
  have "\<exists>f1. (if u then lwrite ap f c cr' else Some f) = Some f1 \<and> hdr f1 = hdr f
      \<and> (\<forall>x. x \<noteq> c \<longrightarrow> lread f1 x = lread f x) \<and> lim f1 = lim f"
  proof (cases u)
    case True
    obtain f1 where "lwrite ap f c cr' = Some f1" using lwrite_Some[OF cb(1,2)] by blast
    with lwrite_inside[OF this cb(3)] True show ?thesis by simp
  next
    case False then show ?thesis by simp
  qed
  then obtain f1 where f1: "(if u then lwrite ap f c cr' else Some f) = Some f1"
    and k1: "hdr f1 = hdr f" "\<forall>x. x \<noteq> c \<longrightarrow> lread f1 x = lread f x" "lim f1 = lim f"
    by blast
  have cn: "c \<notin> set cs" "distinct cs" using Cons.prems(2) by simp_all
  have "chain f1 (rec_next cr) cs"
  proof (rule chain_frame[OF cr(4)])
    fix x xr assume "x \<in> set cs" "lread f x = Some xr"
    then show "\<exists>xr'. lread f1 x = Some xr' \<and> rec_next xr' = rec_next xr"
      using k1(2) cn(1) by (cases "x = c") simp_all
  qed
  moreover have "\<forall>c\<in>set cs. c + af_reclen ap \<le> lim f1"
    using Cons.prems(3) k1(3) by simp
  ultimately obtain f' where
    f': "delete_cpr_loop ap f1 y yr ur (rec_next cr) = Some f'" "hdr f' = hdr f1" "lim f' = lim f1"
      "\<forall>x. x \<notin> set cs \<longrightarrow> lread f' x = lread f1 x"
    using Cons.IH[of f1 "rec_next cr"] cn(2) by blast
  have st: "delete_cpr_loop ap f y yr ur cp = delete_cpr_loop ap f1 y yr ur (rec_next cr)"
  proof -
    have "delete_cpr_loop ap f y yr ur c
        = (if u then lwrite ap f c cr' else Some f) \<bind> (\<lambda>f. delete_cpr_loop ap f y yr ur (rec_next cr'))"
      using cr(2,3) adv by (subst delete_cpr_loop.simps) simp
    then show ?thesis unfolding f1 cr(1) nx by simp
  qed
  have "\<forall>x. x \<notin> set (c # cs) \<longrightarrow> lread f' x = lread f x"
    using f'(4) k1(2) by simp
  then show ?case unfolding st using f'(1,2,3) k1(1,3) by simp
qed


lemma dseg_set_last_next:
  "dseg f p a pre e \<Longrightarrow> pre \<noteq> [] \<Longrightarrow> distinct pre \<Longrightarrow> lread f (last pre) = Some qr
    \<Longrightarrow> lwrite ap f (last pre) (qr\<lparr>rec_next := e'\<rparr>) = Some f'
    \<Longrightarrow> dseg f' p a pre e'"
proof (induction pre arbitrary: p a)
  case Nil then show ?case by simp
next
  case (Cons x pre)
  from Cons.prems(1) obtain xr where xr: "a = x" "0 < x" "lread f x = Some xr" "rec_prev xr = p"
    "dseg f x (rec_next xr) pre e" by (cases "lread f x") simp_all
  show ?case
  proof (cases "pre = []")
    case True
    with Cons.prems xr have "qr = xr" "lread f' x = Some (xr\<lparr>rec_next := e'\<rparr>)"
      using lwrite_lread_same[OF Cons.prems(5)] by simp_all
    with True xr show ?thesis by simp
  next
    case False
    then have l: "last (x # pre) = last pre" "last pre \<noteq> x"
      using Cons.prems(3) by auto
    have "dseg f' x (rec_next xr) pre e'"
      using Cons.IH[OF xr(5) False] Cons.prems(3,4,5) l by simp
    moreover have "lread f' x = Some xr"
      using lwrite_lread_other[OF Cons.prems(5), of x xr] l xr(3) by simp
    ultimately show ?thesis using xr by simp
  qed
qed

lemma dseg_Cons_next: "dseg f p a (x # xs) e \<Longrightarrow> \<exists>xr. lread f x = Some xr \<and> a = x \<and> 0 < x
    \<and> rec_prev xr = p \<and> dseg f x (rec_next xr) xs e"
  by (cases "lread f x") simp_all

lemma dseg_next_le: "dseg f p a xs 0 \<Longrightarrow> \<not> a > 0 \<Longrightarrow> xs = [] \<and> a = 0"
  by (cases xs) (auto split: option.splits)

lemma dseg_next_gt: "dseg f p a xs 0 \<Longrightarrow> a > 0 \<Longrightarrow> \<exists>ys. xs = a # ys"
  by (cases xs) (auto split: option.splits)

lemma seq_unlink_dseg:
  assumes ds: "dseg f 0 (head_seq h) (pre @ y # post) 0" and di: "distinct (pre @ y # post)"
    and yr: "lread f y = Some yr'" "rec_prev yr = rec_prev yr'" "rec_next yr = rec_next yr'"
    and bd: "\<forall>x\<in>set (pre @ y # post). x + af_reclen ap \<le> lim f"
  shows "\<exists>f' h'. delete_seq_unlink ap f h y yr = Some (f', h')
      \<and> dseg f' 0 (head_seq h') (pre @ post) 0 \<and> h'\<lparr>head_seq := head_seq h\<rparr> = h
      \<and> lim f' = lim f \<and> hdr f' = hdr f
      \<and> (\<forall>x. x \<notin> set (pre @ post) \<longrightarrow> lread f' x = lread f x)"
proof -
  let ?q = "last (0 # pre)"
  let ?n = "rec_next yr"
  from ds obtain m where m: "dseg f 0 (head_seq h) pre m" "dseg f ?q m (y # post) 0"
    unfolding dseg_append by blast
  from dseg_Cons_next[OF m(2)] yr have my: "m = y" "rec_prev yr = ?q" "dseg f y ?n post 0"
    by auto
  \<comment> \<open>the record after \<open>y\<close>\<close>
  have "\<exists>f1. (if ?n > 0 then lread f ?n \<bind> (\<lambda>ar. lwrite ap f ?n (ar\<lparr>rec_prev := rec_prev yr\<rparr>))
               else Some f) = Some f1
        \<and> dseg f1 ?q ?n post 0 \<and> lim f1 = lim f \<and> hdr f1 = hdr f
        \<and> (\<forall>x. x \<notin> set post \<longrightarrow> lread f1 x = lread f x)"
  proof (cases "?n > 0")
    case False
    with dseg_next_le[OF my(3)] show ?thesis by simp
  next
    case True
    with dseg_next_gt[OF my(3)] obtain post' where p': "post = ?n # post'" by blast
    from dseg_Cons_next[OF my(3)[unfolded p']] obtain nr where
      nr: "lread f ?n = Some nr" "dseg f ?n (rec_next nr) post' 0" by blast
    have nb: "0 \<le> ?n" "?n \<le> lim f" "?n + af_reclen ap \<le> lim f"
      using True bd p' lread_SomeD[OF nr(1)] by simp_all
    obtain f1 where f1: "lwrite ap f ?n (nr\<lparr>rec_prev := rec_prev yr\<rparr>) = Some f1"
      using lwrite_Some[OF nb(1,2)] by blast
    have np: "?n \<notin> set post'" using di p' by simp
    have "dseg f1 ?n (rec_next nr) post' 0" using dseg_lwrite[OF nr(2) f1 np] .
    then have "dseg f1 ?q ?n post 0"
      using lwrite_lread_same[OF f1] True my(2) unfolding p' by simp
    moreover have "\<forall>x. x \<notin> set post \<longrightarrow> lread f1 x = lread f x"
      using lwrite_inside[OF f1 nb(3)] p' by simp
    ultimately show ?thesis using True nr(1) f1 lwrite_inside[OF f1 nb(3)] by simp
  qed
  then obtain f1 where
    w1: "(if ?n > 0 then lread f ?n \<bind> (\<lambda>ar. lwrite ap f ?n (ar\<lparr>rec_prev := rec_prev yr\<rparr>))
               else Some f) = Some f1"
    and f1: "dseg f1 ?q ?n post 0" "lim f1 = lim f" "hdr f1 = hdr f"
      "\<forall>x. x \<notin> set post \<longrightarrow> lread f1 x = lread f x"
    by blast
  show ?thesis
  proof (cases "head_seq h = y")
    case True
    have "pre = []"
    proof (cases pre)
      case (Cons p ps)
      with m(1) have "head_seq h = p" by (auto split: option.splits)
      with True Cons di show ?thesis by simp
    qed simp
    then show ?thesis using w1 f1 True
      by (simp add: delete_seq_unlink_def)
  next
    case False
    have pne: "pre \<noteq> []"
    proof
      assume "pre = []"
      with m(1) my(1) False show False by simp
    qed
    then have q: "?q = last pre" "last pre \<in> set pre" by simp_all
    have qp: "last pre \<notin> set post" "distinct pre" using di q(2) by auto
    obtain qr where qr: "lread f (last pre) = Some qr"
      using dseg_pos[OF m(1) q(2)] by blast
    then have qr1: "lread f1 (last pre) = Some qr" using f1(4) qp(1) by simp
    have qb: "0 \<le> last pre" "last pre \<le> lim f1" "last pre + af_reclen ap \<le> lim f1"
      using bd q(2) f1(2) lread_SomeD[OF qr1] dseg_pos[OF m(1) q(2)] by simp_all
    obtain f2 where f2: "lwrite ap f1 (last pre) (qr\<lparr>rec_next := ?n\<rparr>) = Some f2"
      using lwrite_Some[OF qb(1,2)] by blast
    have "dseg f1 0 (head_seq h) pre y"
      using dseg_frame[OF m(1)[unfolded my(1)], of f1] f1(4) di by auto
    from dseg_set_last_next[OF this pne qp(2) qr1 f2]
    have a: "dseg f2 0 (head_seq h) pre ?n" .
    have b: "dseg f2 (last pre) ?n post 0"
      using dseg_lwrite[OF f1(1)[unfolded q(1)] f2 qp(1)] .
    have "dseg f2 0 (head_seq h) (pre @ post) 0"
      unfolding dseg_append using a b pne by auto
    moreover have "\<forall>x. x \<notin> set (pre @ post) \<longrightarrow> lread f2 x = lread f x"
    proof (intro allI impI)
      fix x assume x: "x \<notin> set (pre @ post)"
      then have "x \<noteq> last pre" "x \<notin> set post" using q(2) by auto
      then show "lread f2 x = lread f x" using lwrite_inside[OF f2 qb(3)] f1(4) by simp
    qed
    moreover have "delete_seq_unlink ap f h y yr = Some (f2, h)"
      using w1 False qr1 f2 my(2) q(1) by (simp add: delete_seq_unlink_def)
    ultimately show ?thesis using lwrite_inside[OF f2 qb(3)] f1(2,3) by simp
  qed
qed

subsection \<open>Files without keys\<close>

lemma find_Some_split:
  "find P xs = Some y \<Longrightarrow> \<exists>pre post. xs = pre @ y # post \<and> P y \<and> (\<forall>x\<in>set pre. \<not> P x)"
proof (induction xs)
  case Nil then show ?case by simp
next
  case (Cons x xs)
  show ?case
  proof (cases "P x")
    case True with Cons.prems show ?thesis by (intro exI[of _ "[]"] exI[of _ xs]) simp
  next
    case False
    with Cons obtain pre post where "xs = pre @ y # post" "P y" "\<forall>x\<in>set pre. \<not> P x" by auto
    with False show ?thesis by (intro exI[of _ "x # pre"] exI[of _ post]) simp
  qed
qed

lemma delete_free_props:
  assumes "lread f y = Some yr'" "y + af_reclen ap \<le> lim f"
  shows "\<exists>f'. delete_free ap f h y yr = Some (f', h\<lparr>head_empty := y\<rparr>)
      \<and> lim f' = lim f \<and> hdr f' = hdr f \<and> (\<forall>x. x \<noteq> y \<longrightarrow> lread f' x = lread f x)"
proof -
  let ?r = "yr\<lparr>rec_next := head_empty h, rec_prev := 0, rec_n := replicate (af_n_keys ap) empty_node\<rparr>"
  have "0 \<le> y" "y \<le> lim f" using lread_SomeD[OF assms(1)] assms(1)
    by (auto simp: lread_def split: if_splits)
  then obtain f' where f': "lwrite ap f y ?r = Some f'" using lwrite_Some by blast
  from lwrite_inside[OF f' assms(2)] f' show ?thesis
    by (simp add: delete_free_def Let_def)
qed

lemma delete_nokeys:
  assumes nk: "af_n_keys ap = 0" and ok: "dl_ok ap f xs cs"
    and fw: "find (\<lambda>x. data_at f x = data) xs = Some y"
  shows "\<exists>f'. avl_file_delete ap f data yr0 = Some (0, f')
      \<and> dseg f' 0 (head_seq (hdr f')) (remove1 y xs) 0
      \<and> n_avl (hdr f') = n_avl (hdr f) - 1 \<and> head_empty (hdr f') = y
      \<and> (\<forall>x. x \<notin> set xs \<and> x \<notin> set cs \<longrightarrow> lread f' x = lread f x)"
proof -
  from ok have hl: "af_hdrlen ap \<le> lim f" and ds: "dseg f 0 (head_seq (hdr f)) xs 0"
    and dx: "distinct xs" and cc: "chain f (head_cpr (hdr f)) cs" and dc: "distinct cs"
    and dj: "set xs \<inter> set cs = {}"
    and bx: "\<forall>x\<in>set xs. x + af_reclen ap \<le> lim f" and bc: "\<forall>x\<in>set cs. x + af_reclen ap \<le> lim f"
    by (auto simp: dl_ok_def list_all_iff)
  from find_Some_split[OF fw] obtain pre post where sp: "xs = pre @ y # post" by blast
  have yx: "y \<in> set xs" using sp by simp
  then obtain yr where yr: "lread f y = Some yr" "0 < y" using dseg_pos[OF ds] by blast
  have ync: "y \<notin> set cs" using yx dj by auto
  \<comment> \<open>the search\<close>
  have fd: "delete_find ap f (hdr f) data yr0 = Some (y, yr)"
    using seq_scan_chain[OF dseg_chain[OF ds], of data "yr0\<lparr>rec_b := data\<rparr>"] fw yr nk
    by (simp add: delete_find_def)
  \<comment> \<open>the current pointers\<close>
  from cpr_loop_chain[OF cc dc bc, of y yr yr0] obtain f1 where
    f1: "delete_cpr_loop ap f y yr yr0 (head_cpr (hdr f)) = Some f1" "hdr f1 = hdr f" "lim f1 = lim f"
      "\<forall>x. x \<notin> set cs \<longrightarrow> lread f1 x = lread f x" by blast
  have ds1: "dseg f1 0 (head_seq (hdr f)) (pre @ y # post) 0"
    using dseg_frame[OF ds, of f1] f1(4) dj sp by auto
  have yr1: "lread f1 y = Some yr" using f1(4) ync yr by simp
  have bd1: "\<forall>x\<in>set (pre @ y # post). x + af_reclen ap \<le> lim f1"
    using bx f1(3) sp by simp
  from seq_unlink_dseg[OF ds1 dx[unfolded sp] yr1 refl refl bd1]
  obtain f2 h2 where f2: "delete_seq_unlink ap f1 (hdr f) y yr = Some (f2, h2)"
    "dseg f2 0 (head_seq h2) (pre @ post) 0" "h2\<lparr>head_seq := head_seq (hdr f)\<rparr> = hdr f"
    "lim f2 = lim f1" "\<forall>x. x \<notin> set (pre @ post) \<longrightarrow> lread f2 x = lread f1 x"
    by blast
  have yn: "y \<notin> set (pre @ post)" using dx sp by auto
  have yr2: "lread f2 y = Some yr" using f2(5) yn yr1 by simp
  have by2: "y + af_reclen ap \<le> lim f2" using bx yx f2(4) f1(3) by simp
  from delete_free_props[OF yr2 by2, of h2 yr] obtain f3 where
    f3: "delete_free ap f2 h2 y yr = Some (f3, h2\<lparr>head_empty := y\<rparr>)" "lim f3 = lim f2"
      "\<forall>x. x \<noteq> y \<longrightarrow> lread f3 x = lread f2 x" by blast
  let ?h = "h2\<lparr>head_empty := y, n_avl := n_avl h2 - 1\<rparr>"
  let ?f' = "f3\<lparr>hdr := ?h\<rparr>"
  have wh: "lwrite_hdr ap f3 ?h = Some ?f'"
    using hl f3(2) f2(4) f1(3) by (simp add: lwrite_hdr_def)
  have rd: "\<And>x. lread ?f' x = lread f3 x" by (simp add: lread_def)
  have "dseg f3 0 (head_seq h2) (pre @ post) 0"
  proof (rule dseg_frame[OF f2(2)])
    fix x assume "x \<in> set (pre @ post)"
    then have "x \<noteq> y" using yn by auto
    then show "lread f3 x = lread f2 x" using f3(3) by simp
  qed
  then have "dseg ?f' 0 (head_seq h2) (pre @ post) 0"
    by (rule dseg_frame) (rule rd)
  moreover have "remove1 y xs = pre @ post" using dx sp by (simp add: remove1_append)
  ultimately have d': "dseg ?f' 0 (head_seq (hdr ?f')) (remove1 y xs) 0" by simp
  have na: "n_avl h2 = n_avl (hdr f)" using arg_cong[OF f2(3), of n_avl] by simp
  have del: "avl_file_delete ap f data yr0 = Some (0, ?f')"
    using hl fd yr(2) nk f1(1) f2(1) f3(1) wh
    by (simp add: avl_file_delete_def lread_hdr_def Let_def)
  have fr: "\<forall>x. x \<notin> set xs \<and> x \<notin> set cs \<longrightarrow> lread ?f' x = lread f x"
  proof (intro allI impI)
    fix x assume x: "x \<notin> set xs \<and> x \<notin> set cs"
    then have "x \<noteq> y" "x \<notin> set (pre @ post)" using sp by auto
    then show "lread ?f' x = lread f x" using rd f3(3) f2(5) f1(4) x by simp
  qed
  show ?thesis using del d' na fr by (intro exI[of _ ?f']) simp
qed


lemma update_nokeys:
  "af_n_keys ap = 0 \<Longrightarrow> af_hdrlen ap \<le> lim f \<Longrightarrow> avl_file_update ap f data yr0 = Some (- 1, f)"
  by (simp add: avl_file_update_def lread_hdr_def)

lemma file_nokeys_ok: "dl_ok ap_nokeys file_nokeys [112, 88] [64]"
  by (simp add: dl_ok_def ap_nokeys_def lread_def file_nokeys_def hdr_nokeys_def rec7_def rec9_def
      cpr_rec0_def)

lemma file_nokeys_find: "find (\<lambda>x. data_at file_nokeys x = [7, 0, 0, 0]) [112, 88] = Some 88"
  by (simp add: data_at_def lread_def file_nokeys_def rec7_def rec9_def)

text \<open>
  Claim C10. With no keys, \<open>avl_file_update\<close> returns -1 and leaves the
  file alone, whatever records the file holds; \<open>avl_file_delete\<close> still
  finds a record with the bytes given on the sequential list, returns 0,
  takes the record off the list and counts the records down.
\<close>

theorem nokeys_update_delete:
  assumes "af_n_keys ap = 0"
  shows "(af_hdrlen ap \<le> lim f \<longrightarrow> avl_file_update ap f data yr0 = Some (- 1, f))
    \<and> (dl_ok ap f xs cs \<longrightarrow> find (\<lambda>x. data_at f x = data) xs = Some y
         \<longrightarrow> (\<exists>f'. avl_file_delete ap f data yr0 = Some (0, f')
               \<and> dseg f' 0 (head_seq (hdr f')) (remove1 y xs) 0
               \<and> n_avl (hdr f') = n_avl (hdr f) - 1))"
  using update_nokeys[OF assms] delete_nokeys[OF assms] by blast

theorem nokeys_update_delete_witness:
  "af_n_keys ap_nokeys = 0 \<and> af_hdrlen ap_nokeys \<le> lim file_nokeys
   \<and> dl_ok ap_nokeys file_nokeys [112, 88] [64]
   \<and> find (\<lambda>x. data_at file_nokeys x = [7, 0, 0, 0]) [112, 88] = Some 88
   \<and> avl_file_update ap_nokeys file_nokeys [7, 0, 0, 0] cpr_rec0 = Some (- 1, file_nokeys)
   \<and> (\<exists>f'. avl_file_delete ap_nokeys file_nokeys [7, 0, 0, 0] cpr_rec0 = Some (0, f')
         \<and> dseg f' 0 (head_seq (hdr f')) [112] 0 \<and> n_avl (hdr f') = 1)"
proof -
  have a: "af_n_keys ap_nokeys = 0" "af_hdrlen ap_nokeys \<le> lim file_nokeys"
    by (simp_all add: ap_nokeys_def file_nokeys_def)
  have n: "n_avl (hdr file_nokeys) - 1 = 1" by (simp add: file_nokeys_def hdr_nokeys_def)
  from nokeys_update_delete[OF a(1), of file_nokeys "[7, 0, 0, 0]" cpr_rec0 "[112, 88]" "[64]" 88]
  show ?thesis using a file_nokeys_ok file_nokeys_find n by simp
qed

subsection \<open>The search among equal keys\<close>

lemma path_loop_end:
  "\<not> pa l > 0 \<Longrightarrow> path_loop ap f k yb ok l m pa par stack = path_pop ap f k yb ok m pa par stack"
  by (subst path_loop.simps) (simp add: path_pop_def)

lemma cands_subset: "set (cands ap f k yb t) \<subseteq> set_tree t"
  by (induction t) auto

lemma holds_path_Cons:
  "holds_path f l pa par (x # p) \<longleftrightarrow>
     pa l = x \<and> lread f x = Some (par l) \<and> holds_path f (l + 1) pa par p"
proof -
  have "(\<forall>j<Suc (length p). P j) \<longleftrightarrow> P 0 \<and> (\<forall>j<length p. P (Suc j))" for P
    using less_Suc_eq_0_disj by auto
  then show ?thesis by (simp add: holds_path_def add.assoc)
qed

lemma holds_path_agree:
  "holds_path f l pa par p \<Longrightarrow> (\<And>i. l \<le> i \<Longrightarrow> pa' i = pa i \<and> par' i = par i)
    \<Longrightarrow> holds_path f l pa' par' p"
  by (simp add: holds_path_def)


lemma find_append_Some: "find P xs = Some c \<Longrightarrow> find P (xs @ ys) = Some c"
  by (induction xs) (auto split: if_splits)

lemma find_append_None: "find P xs = None \<Longrightarrow> find P (xs @ ys) = find P ys"
  by (induction xs) (auto split: if_splits)

lemma find_Some_set: "find P xs = Some c \<Longrightarrow> c \<in> set xs \<and> P c"
  by (induction xs) (auto split: if_splits)

lemma found_post_step:
  assumes "found_post f (l + 1) (pa(l + 1 := v)) (par(l := xr)) p res"
    and "pa l = x" and "lread f x = Some xr"
  shows "found_post f l pa par (x # p) res"
proof -
  from assms(1) obtain pa' par' where
    r: "res = Some (Some (l + 1 + int (length p) - 1, pa', par'))"
    and h: "holds_path f (l + 1) pa' par' p"
    and a: "\<forall>i<l + 1. pa' i = (pa(l + 1 := v)) i \<and> par' i = (par(l := xr)) i"
    unfolding found_post_def by blast
  have "pa' l = x" "par' l = xr" using a assms(2) by auto
  then have "holds_path f l pa' par' (x # p)"
    using h assms(3) by (simp add: holds_path_Cons)
  moreover have "\<forall>i<l. pa' i = pa i \<and> par' i = par i" using a by auto
  ultimately show ?thesis unfolding found_post_def using r by auto
qed

lemma none_post_step:
  assumes "none_post ap f k yb ok (l + 1) m (pa(l + 1 := v)) (par(l := xr)) stack res"
  shows "none_post ap f k yb ok l m pa par stack res"
proof -
  from assms(1) obtain pa' par' stack' where
    r: "res = path_pop ap f k yb ok m pa' par' stack'"
    and a: "\<forall>i<l + 1. pa' i = (pa(l + 1 := v)) i \<and> par' i = (par(l := xr)) i"
    and s: "\<forall>j<m. stack' j = stack j"
    unfolding none_post_def by blast
  have "\<forall>i<l. pa' i = pa i \<and> par' i = par i" using a by auto
  then show ?thesis unfolding none_post_def using r s by blast
qed

lemma path_loop_explore:
  assumes "threaded f k t lo hi" "0 \<le> lo" "0 \<le> hi" "0 \<le> l" "l + int (height t) \<le> 127"
    "0 \<le> m" "m \<le> l" "pa l = tlink t th" "0 \<le> th" "distinct (inorder t)"
  shows "case find (okc f ok) (cands ap f k yb t) of
           Some c \<Rightarrow> found_post f l pa par (path_to t c) (path_loop ap f k yb ok l m pa par stack)
         | None \<Rightarrow> none_post ap f k yb ok l m pa par stack (path_loop ap f k yb ok l m pa par stack)"
  using assms
proof (induction t arbitrary: l m pa par stack lo hi th)
  case Leaf
  have "\<not> pa l > 0" using Leaf.prems by simp
  then have "path_loop ap f k yb ok l m pa par stack = path_pop ap f k yb ok m pa par stack"
    by (rule path_loop_end)
  then show ?case unfolding none_post_def by auto
next
  case (Node lt x rt)
  let ?t = "Node lt x rt"
  from Node.prems(1) obtain xr where xr: "lread f x = Some xr"
    and gl: "get_l k xr = tlink lt lo" and gr: "get_r k xr = tlink rt hi"
    and x0: "0 < x" and tl: "threaded f k lt lo x" and tr: "threaded f k rt x hi"
    by (auto split: option.splits)
  have pal: "pa l = x" using Node.prems by simp
  have hl: "l + 1 + int (height lt) \<le> 127" "l + 1 + int (height rt) \<le> 127" "l + 1 < 128"
    using Node.prems(5) by auto
  have m128: "m < 128" using Node.prems(7) hl by simp
  have dl: "distinct (inorder lt)" and dr: "distinct (inorder rt)"
    and xl: "x \<notin> set_tree lt" and xrt: "x \<notin> set_tree rt"
    and lr: "set_tree lt \<inter> set_tree rt = {}"
    using Node.prems(10) by auto
  define i where "i = af_cmp ap k yb (rec_b xr)"
  have dat: "af_cmp ap k yb (data_at f x) = i" by (simp add: data_at_def xr i_def)
  have okx: "okc f ok x = ok x xr" by (simp add: okc_def xr)
  define par1 where "par1 = par(l := xr)"
  have pl: "c \<in> set_tree lt \<Longrightarrow> path_to ?t c = x # path_to lt c" for c
    using xl by auto
  have pr: "c \<in> set_tree rt \<Longrightarrow> path_to ?t c = x # path_to rt c" for c
    using xrt lr by auto
  consider "i < 0" | "i = 0" | "i > 0" by linarith
  then show ?case
  proof cases
    case 1
    then have i1: "i \<le> 0" "i \<noteq> 0" "\<not> 127 \<le> l" using hl by auto
    let ?res = "path_loop ap f k yb ok (l + 1) m (pa(l + 1 := tlink lt lo)) par1 stack"
    have step: "path_loop ap f k yb ok l m pa par stack = ?res"
      by (subst path_loop.simps) (simp add: pal x0 xr i_def[symmetric] i1 gl par1_def Let_def)
    have cs: "cands ap f k yb ?t = cands ap f k yb lt" using 1 by (simp add: dat)
    have IH: "case find (okc f ok) (cands ap f k yb lt) of
           Some c \<Rightarrow> found_post f (l + 1) (pa(l + 1 := tlink lt lo)) par1 (path_to lt c) ?res
         | None \<Rightarrow> none_post ap f k yb ok (l + 1) m (pa(l + 1 := tlink lt lo)) par1 stack ?res"
      by (rule Node.IH(1)[OF tl Node.prems(2) _ _ hl(1) Node.prems(6) _ _ Node.prems(2) dl])
         (use x0 Node.prems in simp_all)
    show ?thesis
    proof (cases "find (okc f ok) (cands ap f k yb lt)")
      case None
      then have "none_post ap f k yb ok (l + 1) m (pa(l + 1 := tlink lt lo)) par1 stack ?res"
        using IH by simp
      then have "none_post ap f k yb ok l m pa par stack ?res"
        unfolding par1_def by (rule none_post_step)
      then show ?thesis using None by (simp only: cs step option.case)
    next
      case (Some c)
      then have cin: "c \<in> set_tree lt" using find_Some_set cands_subset by fastforce
      from Some have "found_post f (l + 1) (pa(l + 1 := tlink lt lo)) par1 (path_to lt c) ?res"
        using IH by simp
      then have "found_post f l pa par (x # path_to lt c) ?res"
        unfolding par1_def using pal xr by (rule found_post_step)
      then show ?thesis using Some by (simp only: cs step option.case pl[OF cin])
    qed
  next
    case 3
    then have i3: "\<not> i \<le> 0" "\<not> 127 \<le> l" using hl by auto
    let ?res = "path_loop ap f k yb ok (l + 1) m (pa(l + 1 := tlink rt hi)) par1 stack"
    have step: "path_loop ap f k yb ok l m pa par stack = ?res"
      by (subst path_loop.simps) (simp add: pal x0 xr i_def[symmetric] i3 gr par1_def Let_def)
    have cs: "cands ap f k yb ?t = cands ap f k yb rt" using 3 by (simp add: dat)
    have IH: "case find (okc f ok) (cands ap f k yb rt) of
           Some c \<Rightarrow> found_post f (l + 1) (pa(l + 1 := tlink rt hi)) par1 (path_to rt c) ?res
         | None \<Rightarrow> none_post ap f k yb ok (l + 1) m (pa(l + 1 := tlink rt hi)) par1 stack ?res"
      by (rule Node.IH(2)[OF tr _ Node.prems(3) _ hl(2) Node.prems(6) _ _ Node.prems(3) dr])
         (use x0 Node.prems in simp_all)
    show ?thesis
    proof (cases "find (okc f ok) (cands ap f k yb rt)")
      case None
      then have "none_post ap f k yb ok (l + 1) m (pa(l + 1 := tlink rt hi)) par1 stack ?res"
        using IH by simp
      then have "none_post ap f k yb ok l m pa par stack ?res"
        unfolding par1_def by (rule none_post_step)
      then show ?thesis using None by (simp only: cs step option.case)
    next
      case (Some c)
      then have cin: "c \<in> set_tree rt" using find_Some_set cands_subset by fastforce
      from Some have "found_post f (l + 1) (pa(l + 1 := tlink rt hi)) par1 (path_to rt c) ?res"
        using IH by simp
      then have "found_post f l pa par (x # path_to rt c) ?res"
        unfolding par1_def using pal xr by (rule found_post_step)
      then show ?thesis using Some by (simp only: cs step option.case pr[OF cin])
    qed
  next
    case 2
    have i2: "\<not> 127 \<le> l" "\<not> 128 \<le> m" using hl m128 by auto
    define stack1 where "stack1 = stack(m := l)"
    let ?res = "path_loop ap f k yb ok (l + 1) (m + 1) (pa(l + 1 := tlink lt lo)) par1 stack1"
    have step: "path_loop ap f k yb ok l m pa par stack = ?res"
      by (subst path_loop.simps)
         (simp add: pal x0 xr i_def[symmetric] 2 i2 gl par1_def stack1_def Let_def)
    have cs: "cands ap f k yb ?t = cands ap f k yb lt @ x # cands ap f k yb rt"
      using 2 by (simp add: dat)
    have IH: "case find (okc f ok) (cands ap f k yb lt) of
           Some c \<Rightarrow> found_post f (l + 1) (pa(l + 1 := tlink lt lo)) par1 (path_to lt c) ?res
         | None \<Rightarrow> none_post ap f k yb ok (l + 1) (m + 1) (pa(l + 1 := tlink lt lo)) par1 stack1 ?res"
      by (rule Node.IH(1)[OF tl Node.prems(2) _ _ hl(1) _ _ _ Node.prems(2) dl])
         (use x0 Node.prems in simp_all)
    show ?thesis
    proof (cases "find (okc f ok) (cands ap f k yb lt)")
      case (Some c)
      then have cin: "c \<in> set_tree lt" using find_Some_set cands_subset by fastforce
      have fs: "find (okc f ok) (cands ap f k yb ?t) = Some c"
        unfolding cs using Some by (rule find_append_Some)
      from Some have "found_post f (l + 1) (pa(l + 1 := tlink lt lo)) par1 (path_to lt c) ?res"
        using IH by simp
      then have "found_post f l pa par (x # path_to lt c) ?res"
        unfolding par1_def using pal xr by (rule found_post_step)
      then show ?thesis by (simp only: fs step option.case pl[OF cin])
    next
      case None
      then have "none_post ap f k yb ok (l + 1) (m + 1) (pa(l + 1 := tlink lt lo)) par1 stack1 ?res"
        using IH by simp
      then obtain pa' par' stack' where
        r: "?res = path_pop ap f k yb ok (m + 1) pa' par' stack'"
        and a: "\<forall>i<l + 1. pa' i = (pa(l + 1 := tlink lt lo)) i \<and> par' i = par1 i"
        and s: "\<forall>j<m + 1. stack' j = stack1 j"
        unfolding none_post_def by blast
      have pa'l: "pa' l = x" and par'l: "par' l = xr" using a pal by (auto simp: par1_def)
      have st: "stack' m = l" using s by (simp add: stack1_def)
      have below: "\<forall>i<l. pa' i = pa i \<and> par' i = par i" using a by (auto simp: par1_def)
      have sbelow: "\<forall>j<m. stack' j = stack j" using s by (auto simp: stack1_def)
      have fs: "find (okc f ok) (cands ap f k yb ?t) = find (okc f ok) (x # cands ap f k yb rt)"
        unfolding cs using None by (rule find_append_None)
      show ?thesis
      proof (cases "ok x xr")
        case True
        have "?res = Some (Some (l, pa', par'))"
          unfolding r using Node.prems(6) True by (simp add: path_pop_def st pa'l par'l)
        moreover have "holds_path f l pa' par' [x]"
          by (simp add: holds_path_def pa'l par'l xr)
        ultimately have "found_post f l pa par (path_to ?t x) ?res"
          unfolding found_post_def using below by simp
        moreover have "find (okc f ok) (cands ap f k yb ?t) = Some x"
          unfolding fs using True okx by simp
        ultimately show ?thesis by (simp only: step option.case)
      next
        case False
        let ?res2 = "path_loop ap f k yb ok (l + 1) m (pa'(l + 1 := tlink rt hi)) par' stack'"
        have r2: "?res = ?res2"
          unfolding r using Node.prems(6) False hl(3)
          by (simp add: path_pop_def st pa'l par'l gr)
        have fs2: "find (okc f ok) (cands ap f k yb ?t) = find (okc f ok) (cands ap f k yb rt)"
          unfolding fs using False okx by simp
        have IH2: "case find (okc f ok) (cands ap f k yb rt) of
           Some c \<Rightarrow> found_post f (l + 1) (pa'(l + 1 := tlink rt hi)) par' (path_to rt c) ?res2
         | None \<Rightarrow> none_post ap f k yb ok (l + 1) m (pa'(l + 1 := tlink rt hi)) par' stack' ?res2"
          by (rule Node.IH(2)[OF tr _ Node.prems(3) _ hl(2) Node.prems(6) _ _ Node.prems(3) dr])
             (use x0 Node.prems in simp_all)
        have par'_eq: "par'(l := xr) = par'" using par'l by auto
        show ?thesis
        proof (cases "find (okc f ok) (cands ap f k yb rt)")
          case None
          then have "none_post ap f k yb ok (l + 1) m (pa'(l + 1 := tlink rt hi)) par' stack' ?res2"
            using IH2 by simp
          then obtain pa2 par2 stack2 where
            r3: "?res2 = path_pop ap f k yb ok m pa2 par2 stack2"
            and a2: "\<forall>i<l + 1. pa2 i = (pa'(l + 1 := tlink rt hi)) i \<and> par2 i = par' i"
            and s2: "\<forall>j<m. stack2 j = stack' j"
            unfolding none_post_def by blast
          have "\<forall>i<l. pa2 i = pa i \<and> par2 i = par i" using a2 below by auto
          moreover have "\<forall>j<m. stack2 j = stack j" using s2 sbelow by auto
          ultimately have "none_post ap f k yb ok l m pa par stack ?res2"
            unfolding none_post_def using r3 by blast
          then show ?thesis using None by (simp only: fs2 step r2 option.case)
        next
          case (Some c)
          then have cin: "c \<in> set_tree rt" using find_Some_set cands_subset by fastforce
          from Some have "found_post f (l + 1) (pa'(l + 1 := tlink rt hi)) par' (path_to rt c) ?res2"
            using IH2 by simp
          then have "found_post f (l + 1) (pa'(l + 1 := tlink rt hi)) (par'(l := xr)) (path_to rt c) ?res2"
            by (simp only: par'_eq)
          then have "found_post f l pa' par' (x # path_to rt c) ?res2"
            using pa'l xr by (rule found_post_step)
          then have "found_post f l pa par (x # path_to rt c) ?res2"
            unfolding found_post_def using below by auto
          then show ?thesis using Some by (simp only: fs2 step r2 option.case pr[OF cin])
        qed
      qed
    qed
  qed
qed

lemma cmp_zero_sym: "cmp_ok cmp k \<Longrightarrow> cmp k a b = 0 \<Longrightarrow> cmp k b a = 0"
proof -
  assume c: "cmp_ok cmp k" and e: "cmp k a b = 0"
  have "\<not> cmp k b a > 0" "\<not> cmp k b a < 0"
    using c e unfolding cmp_ok_def by (metis less_irrefl)+
  then show ?thesis by linarith
qed

lemma cands_filter:
  assumes "cmp_ok (af_cmp ap) k" "ordered ap f k (inorder t)"
  shows "cands ap f k yb t = filter (\<lambda>x. af_cmp ap k yb (data_at f x) = 0) (inorder t)"
  using assms(2)
proof (induction t)
  case Leaf
  then show ?case by simp
next
  case (Node lt x rt)
  let ?c = "\<lambda>a b. af_cmp ap k a b"
  from Node.prems have ol: "ordered ap f k (inorder lt)" and orr: "ordered ap f k (inorder rt)"
    and lx: "\<forall>y\<in>set (inorder lt). ?c (data_at f y) (data_at f x) \<le> 0"
    and xr: "\<forall>z\<in>set (inorder rt). ?c (data_at f x) (data_at f z) \<le> 0"
    by (auto simp: ordered_def sorted_wrt_append)
  note IH = Node.IH(1)[OF ol] Node.IH(2)[OF orr]
  consider "?c yb (data_at f x) < 0" | "?c yb (data_at f x) = 0" | "?c yb (data_at f x) > 0"
    by linarith
  then show ?case
  proof cases
    case 1
    have "\<forall>z\<in>set (inorder rt). ?c yb (data_at f z) \<noteq> 0"
    proof
      fix z assume z: "z \<in> set (inorder rt)"
      show "?c yb (data_at f z) \<noteq> 0"
      proof
        assume "?c yb (data_at f z) = 0"
        then have "?c (data_at f z) yb \<le> 0" using cmp_zero_sym[OF assms(1)] by simp
        moreover have "?c (data_at f x) (data_at f z) \<le> 0" using xr z by simp
        ultimately have "?c (data_at f x) yb \<le> 0" using assms(1) unfolding cmp_ok_def by blast
        moreover have "?c (data_at f x) yb > 0" using 1 assms(1) unfolding cmp_ok_def by blast
        ultimately show False by simp
      qed
    qed
    then have "filter (\<lambda>x. ?c yb (data_at f x) = 0) (inorder rt) = []" by (simp add: filter_empty_conv)
    then show ?thesis using 1 IH by simp
  next
    case 2
    then show ?thesis using IH by simp
  next
    case 3
    have "\<forall>y\<in>set (inorder lt). ?c yb (data_at f y) \<noteq> 0"
    proof
      fix y assume y: "y \<in> set (inorder lt)"
      show "?c yb (data_at f y) \<noteq> 0"
      proof
        assume "?c yb (data_at f y) = 0"
        then have "?c yb (data_at f y) \<le> 0" by simp
        moreover have "?c (data_at f y) (data_at f x) \<le> 0" using lx y by simp
        ultimately have "?c yb (data_at f x) \<le> 0" using assms(1) unfolding cmp_ok_def by blast
        then show False using 3 by simp
      qed
    qed
    then have "filter (\<lambda>x. ?c yb (data_at f x) = 0) (inorder lt) = []" by (simp add: filter_empty_conv)
    then show ?thesis using 3 IH by simp
  qed
qed

lemma find_filter_imp: "(\<And>x. P x \<Longrightarrow> Q x) \<Longrightarrow> find P (filter Q xs) = find P xs"
  by (induction xs) auto

lemma path_to_last: "c \<in> set_tree t \<Longrightarrow> path_to t c \<noteq> [] \<and> last (path_to t c) = c"
  by (induction t) auto

lemma holds_path_last:
  assumes "holds_path f l pa par p" "p \<noteq> []"
  shows "pa (l + int (length p) - 1) = last p \<and> lread f (last p) = Some (par (l + int (length p) - 1))"
proof -
  have "length p - 1 < length p" using assms(2) by simp
  moreover have "l + int (length p - 1) = l + int (length p) - 1" using assms(2)
    by (cases p) auto
  moreover have "p ! (length p - 1) = last p" using assms(2) by (simp add: last_conv_nth)
  ultimately show ?thesis using assms(1) unfolding holds_path_def by metis
qed

lemma threaded_pos_set: "threaded f k t lo hi \<Longrightarrow> x \<in> set_tree t \<Longrightarrow> 0 < x"
  by (induction t arbitrary: lo hi) auto

text \<open>The search from the root of a tree: the first candidate that passes
  the test, with its record.\<close>

lemma path_loop_root:
  assumes "threaded f k t 0 0" "distinct (inorder t)" "int (height t) \<le> 127" "pa 0 = tlink t 0"
  shows "path_loop ap f k yb ok 0 0 pa par stack =
     (case find (okc f ok) (cands ap f k yb t) of
        None \<Rightarrow> Some None
      | Some c \<Rightarrow> path_loop ap f k yb ok 0 0 pa par stack)
    \<and> (\<forall>c. find (okc f ok) (cands ap f k yb t) = Some c \<longrightarrow>
          (\<exists>l pa' par'. path_loop ap f k yb ok 0 0 pa par stack = Some (Some (l, pa', par'))
              \<and> pa' l = c \<and> lread f c = Some (par' l) \<and> holds_path f 0 pa' par' (path_to t c)
              \<and> l = int (length (path_to t c)) - 1))"
proof -
  have e: "case find (okc f ok) (cands ap f k yb t) of
           Some c \<Rightarrow> found_post f 0 pa par (path_to t c) (path_loop ap f k yb ok 0 0 pa par stack)
         | None \<Rightarrow> none_post ap f k yb ok 0 0 pa par stack (path_loop ap f k yb ok 0 0 pa par stack)"
    by (rule path_loop_explore[where lo = 0 and hi = 0 and th = 0 and l = 0 and m = 0])
       (use assms in simp_all)
  show ?thesis
  proof (cases "find (okc f ok) (cands ap f k yb t)")
    case None
    then have "none_post ap f k yb ok 0 0 pa par stack (path_loop ap f k yb ok 0 0 pa par stack)"
      using e by simp
    then have "path_loop ap f k yb ok 0 0 pa par stack = Some None"
      unfolding none_post_def path_pop_def by auto
    then show ?thesis using None by simp
  next
    case (Some c)
    then have cin: "c \<in> set_tree t" using find_Some_set cands_subset by fastforce
    from Some have "found_post f 0 pa par (path_to t c) (path_loop ap f k yb ok 0 0 pa par stack)"
      using e by simp
    then obtain pa' par' where
      r: "path_loop ap f k yb ok 0 0 pa par stack = Some (Some (0 + int (length (path_to t c)) - 1, pa', par'))"
      and h: "holds_path f 0 pa' par' (path_to t c)"
      unfolding found_post_def by blast
    from holds_path_last[OF h] path_to_last[OF cin]
    have "pa' (0 + int (length (path_to t c)) - 1) = c"
      "lread f c = Some (par' (0 + int (length (path_to t c)) - 1))" by auto
    then show ?thesis using Some r h by simp
  qed
qed

subsection \<open>avl\_file\_update\<close>

lemma threaded_lread: "threaded f k t lo hi \<Longrightarrow> x \<in> set_tree t \<Longrightarrow> \<exists>r. lread f x = Some r"
  by (induction t arbitrary: lo hi) (auto split: option.splits)

lemma all_keys_equal_0: "0 < af_n_keys ap \<Longrightarrow> all_keys_equal ap a b \<Longrightarrow> af_cmp ap 0 a b = 0"
  by (simp add: all_keys_equal_def list_all_iff)

lemma find_cong_set: "(\<And>x. x \<in> set xs \<Longrightarrow> P x = Q x) \<Longrightarrow> find P xs = find Q xs"
  by (induction xs) auto

lemma update_search:
  assumes nk: "0 < af_n_keys ap" and t: "tree_of ap f 0 t" and c: "cmp_ok (af_cmp ap) 0"
  shows "find (okc f (\<lambda>p r. all_keys_equal ap data (rec_b r))) (cands ap f 0 data t)
       = find (\<lambda>x. all_keys_equal ap data (data_at f x)) (inorder t)"
proof -
  let ?ok = "\<lambda>p r. all_keys_equal ap data (rec_b r)"
  let ?P = "\<lambda>x. all_keys_equal ap data (data_at f x)"
  let ?Q = "\<lambda>x. af_cmp ap 0 data (data_at f x) = 0"
  from t have th: "threaded f 0 t 0 0" and o: "ordered ap f 0 (inorder t)"
    by (simp_all add: tree_of_def)
  have cf: "cands ap f 0 data t = filter ?Q (inorder t)" by (rule cands_filter[OF c o])
  have "find (okc f ?ok) (filter ?Q (inorder t)) = find ?P (filter ?Q (inorder t))"
  proof (rule find_cong_set)
    fix x assume "x \<in> set (filter ?Q (inorder t))"
    then have "x \<in> set_tree t" by simp
    then obtain r where "lread f x = Some r" using threaded_lread[OF th] by blast
    then show "okc f ?ok x = ?P x" by (simp add: okc_def data_at_def)
  qed
  also have "\<dots> = find ?P (inorder t)"
    by (rule find_filter_imp) (rule all_keys_equal_0[OF nk])
  finally show ?thesis by (simp only: cf)
qed

text \<open>
  Claim C7, amended. In a file with at least one key, \<open>avl_file_update\<close>
  returns 0 exactly when some record of the tree of key 0 compares equal to
  the data under every key; the first such record in the order of key 0 then
  gets the data, and nothing else in the file changes: every node, both list
  fields of every record, every other record and the header stay as they
  were. When there is no such record it returns -1 and the file is unchanged.
\<close>

theorem update_equal_under_every_key:
  assumes nk: "0 < af_n_keys ap" and t: "tree_of ap f 0 t" and c: "cmp_ok (af_cmp ap) 0"
    and h: "int (height t) \<le> 127"
    and inside: "list_all (\<lambda>x. x + af_reclen ap \<le> lim f) (inorder t)"
  shows "avl_file_update ap f data yr0 =
     (case find (\<lambda>x. all_keys_equal ap data (data_at f x)) (inorder t) of
        None \<Rightarrow> Some (- 1, f)
      | Some y \<Rightarrow> Some (0, f\<lparr>recs := (recs f)(y \<mapsto> (the (recs f y))\<lparr>rec_b := data\<rparr>)\<rparr>))"
proof -
  let ?ok = "\<lambda>p r. all_keys_equal ap data (rec_b r)"
  let ?pa = "pa0(0 := root (hdr f) ! 0)"
  let ?loop = "path_loop ap f 0 data ?ok 0 0 ?pa (par0 yr0) pa0"
  from t have th: "threaded f 0 t 0 0" and d: "distinct (inorder t)"
    and hl: "af_hdrlen ap \<le> lim f" and rt: "root (hdr f) ! 0 = tlink t 0"
    by (simp_all add: tree_of_def)
  have pa: "?pa 0 = tlink t 0" using rt by simp
  have root: "?loop =
     (case find (okc f ?ok) (cands ap f 0 data t) of None \<Rightarrow> Some None | Some c \<Rightarrow> ?loop)
    \<and> (\<forall>c. find (okc f ?ok) (cands ap f 0 data t) = Some c \<longrightarrow>
          (\<exists>l pa' par'. ?loop = Some (Some (l, pa', par'))
              \<and> pa' l = c \<and> lread f c = Some (par' l) \<and> holds_path f 0 pa' par' (path_to t c)
              \<and> l = int (length (path_to t c)) - 1))"
    using th d h pa by (rule path_loop_root)
  note fs = update_search[OF nk t c, of data]
  have hd: "lread_hdr ap f = Some (hdr f)" using hl by (simp add: lread_hdr_def)
  show ?thesis
  proof (cases "find (\<lambda>x. all_keys_equal ap data (data_at f x)) (inorder t)")
    case None
    then have "?loop = Some None" using root fs by simp
    then show ?thesis using None nk hd by (simp add: avl_file_update_def)
  next
    case (Some y)
    then have fy: "find (okc f ?ok) (cands ap f 0 data t) = Some y" using fs by simp
    then obtain l pa' par' where r: "?loop = Some (Some (l, pa', par'))"
      and y: "pa' l = y" and yr: "lread f y = Some (par' l)"
      using root by blast
    have yin: "y \<in> set_tree t" using fy find_Some_set cands_subset by fastforce
    then have y0: "0 < y" using threaded_pos_set[OF th] by simp
    have ylim: "y \<le> lim f" and ry: "recs f y = Some (par' l)" using lread_SomeD[OF yr] by simp_all
    have yin2: "y + af_reclen ap \<le> lim f" using inside yin by (simp add: list_all_iff)
    have w: "lwrite ap f y ((par' l)\<lparr>rec_b := data\<rparr>)
        = Some (f\<lparr>recs := (recs f)(y \<mapsto> (the (recs f y))\<lparr>rec_b := data\<rparr>)\<rparr>)"
      using y0 ylim yin2 ry by (simp add: lwrite_def)
    show ?thesis using Some nk hd r y y0 w by (simp add: avl_file_update_def)
  qed
qed

theorem update_equal_under_every_key_witness:
  "0 < af_n_keys ap1 \<and> tree_of ap1 file3 0 tree3 \<and> cmp_ok (af_cmp ap1) 0
   \<and> int (height tree3) \<le> 127
   \<and> list_all (\<lambda>x. x + af_reclen ap1 \<le> lim file3) (inorder tree3)
   \<and> find (\<lambda>x. all_keys_equal ap1 [20, 1, 2, 3] (data_at file3 x)) (inorder tree3) = Some 168
   \<and> avl_file_update ap1 file3 [20, 1, 2, 3] rec_cpr1
       = Some (0, file3\<lparr>recs := (recs file3)(168 \<mapsto> rec20\<lparr>rec_b := [20, 1, 2, 3]\<rparr>)\<rparr>)
   \<and> find (\<lambda>x. all_keys_equal ap1 [25, 0, 0, 0] (data_at file3 x)) (inorder tree3) = None
   \<and> avl_file_update ap1 file3 [25, 0, 0, 0] rec_cpr1 = Some (- 1, file3)"
proof -
  have a: "0 < af_n_keys ap1" "cmp_ok (af_cmp ap1) 0" "int (height tree3) \<le> 127"
    "list_all (\<lambda>x. x + af_reclen ap1 \<le> lim file3) (inorder tree3)"
    using cmp_byte_ok[of 0] by (simp_all add: ap1_def tree3_def file3_def)
  have f1: "find (\<lambda>x. all_keys_equal ap1 [20, 1, 2, 3] (data_at file3 x)) (inorder tree3) = Some 168"
    by (simp add: all_keys_equal_def tree3_def file3_data ap1_def cmp_byte_def key_of_def)
  have f2: "find (\<lambda>x. all_keys_equal ap1 [25, 0, 0, 0] (data_at file3 x)) (inorder tree3) = None"
    by (simp add: all_keys_equal_def tree3_def file3_data ap1_def cmp_byte_def key_of_def)
  have r: "the (recs file3 168) = rec20" by (simp add: file3_def)
  from update_equal_under_every_key[OF a(1) file3_tree a(2) a(3) a(4), of "[20, 1, 2, 3]" rec_cpr1]
    update_equal_under_every_key[OF a(1) file3_tree a(2) a(3) a(4), of "[25, 0, 0, 0]" rec_cpr1]
  show ?thesis using a file3_tree f1 f2 r by simp
qed

text \<open>
  Without keys the search is not run: \<open>avl_file_update\<close> returns -1 on
  the file \<open>file_nokeys\<close>, although the record at 88 is equal to the data
  under every key (there is none).
\<close>

theorem update_nokeys_counterexample:
  "lread file_nokeys 88 = Some rec7
   \<and> all_keys_equal ap_nokeys [7, 0, 0, 0] (rec_b rec7)
   \<and> avl_file_update ap_nokeys file_nokeys [7, 0, 0, 0] cpr_rec0 = Some (- 1, file_nokeys)"
  by (simp add: lread_def file_nokeys_def all_keys_equal_def ap_nokeys_def avl_file_update_def
      lread_hdr_def)

end
